theory Spec2Isabelle
  imports Main "HOL-Library.Word" "HOL-Library.Sublist"
begin

section \<open>JavaScript strings\<close>

text \<open>
  A JavaScript string is a finite sequence of 16-bit code units. Regular expressions
  without the \<open>u\<close> flag, \<open>trim\<close> and \<open>encodeURIComponent\<close> all work on code units,
  so the model does too. \<open>lit\<close> embeds an ASCII literal of the source.
\<close>

type_synonym jsstring = "16 word list"

definition lit :: "string \<Rightarrow> jsstring" where
  "lit cs = map of_char cs"

definition nl :: "16 word" where
  "nl = 0x0A"

text \<open>A template literal spanning several source lines: the lines joined by line feeds.\<close>

fun joinLines :: "jsstring list \<Rightarrow> jsstring" where
  "joinLines [] = []"
| "joinLines [l] = l"
| "joinLines (l # ls) = l @ nl # joinLines ls"

section \<open>The component state and the upload handler\<close>

datatype FormatType = Raw | Html | Js | Jsx | Tsx | Css

record AppState =
  svgContent :: jsstring
  selectedFormat :: FormatType
  errorMessage :: jsstring
  copySuccess :: bool
  isDragging :: bool

text \<open>
  An uploaded file: its declared MIME type and the text \<open>FileReader.readAsText\<close>
  delivers to \<open>onload\<close>.
\<close>

record File =
  file_type :: jsstring
  file_text :: jsstring

text \<open>
  \<open>handleFileUpload\<close>: the error message is cleared first; a file of another type
  sets the message and returns; otherwise the reader's \<open>onload\<close> stores the content
  and selects the raw format.
\<close>

definition handleFileUpload :: "AppState \<Rightarrow> File \<Rightarrow> AppState" where
  \<open>handleFileUpload st file =
     (let st1 = st\<lparr>errorMessage := []\<rparr> in
      if file_type file \<noteq> lit ''image/svg+xml''
      then st1\<lparr>errorMessage := lit ''Invalid file type. Please upload an SVG file.''\<rparr>
      else st1\<lparr>svgContent := file_text file, selectedFormat := Raw\<rparr>)\<close>

section \<open>Regular-expression replacements\<close>

subsection \<open>Global replacement of a literal pattern\<close>

text \<open>
  \<open>s.replace(new RegExp(k, "g"), r)\<close> for a pattern \<open>k\<close> without metacharacters and a
  replacement \<open>r\<close> without \<open>$\<close>: scanning from the left, every match is replaced and
  the scan resumes behind it. The empty pattern matches before every code unit and at
  the end.
\<close>

fun replaceAll :: "jsstring \<Rightarrow> jsstring \<Rightarrow> jsstring \<Rightarrow> jsstring" where
  "replaceAll [] r s = r @ concat (map (\<lambda>c. c # r) s)"
| "replaceAll (k # ks) r [] = []"
| "replaceAll (k # ks) r (c # cs) =
     (if prefix (k # ks) (c # cs)
      then r @ replaceAll (k # ks) r (drop (length (k # ks)) (c # cs))
      else c # replaceAll (k # ks) r cs)"

subsection \<open>The XML declaration\<close>

text \<open>
  \<open>/<\?xml[^?]*\?>/\<close> at the head of \<open>s\<close>: after \<open><?xml\<close> the class \<open>[^?]*\<close> takes every
  code unit up to the first \<open>?\<close> (giving some back cannot help: what follows a shorter
  run is not a \<open>?\<close>), and \<open>?>\<close> must follow. The result is the text behind the match.
\<close>

definition matchXmlDecl :: "jsstring \<Rightarrow> jsstring option" where
  \<open>matchXmlDecl s =
     (if prefix (lit ''<?xml'') s
      then (let r = dropWhile (\<lambda>c. c \<noteq> 0x3F) (drop 5 s)
            in if prefix (lit ''?>'') r then Some (drop 2 r) else None)
      else None)\<close>

lemma matchXmlDecl_shorter: "matchXmlDecl s = Some r \<Longrightarrow> length r < length s"
proof -
  assume a: "matchXmlDecl s = Some r"
  then have p: "prefix (lit ''<?xml'') s"
    by (auto simp: matchXmlDecl_def split: if_splits)
  then have "5 \<le> length s"
    using prefix_length_le [OF p] by (simp add: lit_def)
  moreover have "length r \<le> length (dropWhile (\<lambda>c. c \<noteq> 0x3F) (drop 5 s))"
    using a by (auto simp: matchXmlDecl_def Let_def split: if_splits)
  moreover have "length (dropWhile (\<lambda>c. c \<noteq> 0x3F) (drop 5 s)) \<le> length (drop 5 s)"
    by (rule length_dropWhile_le)
  ultimately show ?thesis by simp
qed

text \<open>\<open>s.replace(/<\?xml[^?]*\?>/g, "")\<close>: every match is deleted.\<close>

function removeXmlDecl :: "jsstring \<Rightarrow> jsstring" where
  "removeXmlDecl [] = []"
| "removeXmlDecl (c # cs) =
     (case matchXmlDecl (c # cs) of
        Some rest \<Rightarrow> removeXmlDecl rest
      | None \<Rightarrow> c # removeXmlDecl cs)"
  by pat_completeness auto
termination
  by (relation "measure length") (auto dest: matchXmlDecl_shorter)

subsection \<open>The opening svg tag\<close>

text \<open>
  \<open>/<svg([^>]*)>/\<close> at the head of \<open>s\<close>: after \<open><svg\<close> the group takes every code unit
  up to the first \<open>>\<close>, which must exist. The result is the group and the text behind
  the match.
\<close>

definition matchSvgTag :: "jsstring \<Rightarrow> (jsstring \<times> jsstring) option" where
  \<open>matchSvgTag s =
     (if prefix (lit ''<svg'') s
      then (case dropWhile (\<lambda>c. c \<noteq> 0x3E) (drop 4 s) of
              [] \<Rightarrow> None
            | _ # rest \<Rightarrow> Some (takeWhile (\<lambda>c. c \<noteq> 0x3E) (drop 4 s), rest))
      else None)\<close>

definition svgTagAdditions :: jsstring where
  \<open>svgTagAdditions = lit '' {...props} fill="currentColor" role="img"''\<close>

text \<open>
  \<open>s.replace(/<svg([^>]*)>/, '<svg {...props} fill="currentColor" role="img"$1>')\<close>:
  the expression is not global, so the first match only is rewritten.
\<close>

fun replaceSvgTag :: "jsstring \<Rightarrow> jsstring" where
  "replaceSvgTag [] = []"
| "replaceSvgTag (c # cs) =
     (case matchSvgTag (c # cs) of
        Some (g, rest) \<Rightarrow> lit ''<svg'' @ svgTagAdditions @ g @ 0x3E # rest
      | None \<Rightarrow> c # replaceSvgTag cs)"

subsection \<open>Trimming\<close>

text \<open>The code units \<open>String.prototype.trim\<close> strips: WhiteSpace and LineTerminator.\<close>

definition isWhiteSpace :: "16 word \<Rightarrow> bool" where
  "isWhiteSpace c \<longleftrightarrow>
     c \<in> {0x09, 0x0A, 0x0B, 0x0C, 0x0D, 0x20, 0xA0, 0x1680, 0x2028, 0x2029,
          0x202F, 0x205F, 0x3000, 0xFEFF} \<or> (0x2000 \<le> c \<and> c \<le> 0x200A)"

definition trim :: "jsstring \<Rightarrow> jsstring" where
  "trim s = rev (dropWhile isWhiteSpace (rev (dropWhile isWhiteSpace s)))"

section \<open>The conversion to React props\<close>

definition attributeMap :: "(jsstring \<times> jsstring) list" where
  "attributeMap =
     [(lit ''stroke-width'', lit ''strokeWidth''),
      (lit ''stroke-linecap'', lit ''strokeLinecap''),
      (lit ''stroke-linejoin'', lit ''strokeLinejoin''),
      (lit ''stroke-miterlimit'', lit ''strokeMiterlimit''),
      (lit ''stroke-dasharray'', lit ''strokeDasharray''),
      (lit ''stroke-dashoffset'', lit ''strokeDashoffset''),
      (lit ''stroke-opacity'', lit ''strokeOpacity''),
      (lit ''fill-opacity'', lit ''fillOpacity''),
      (lit ''fill-rule'', lit ''fillRule''),
      (lit ''clip-path'', lit ''clipPath''),
      (lit ''clip-rule'', lit ''clipRule''),
      (lit ''font-family'', lit ''fontFamily''),
      (lit ''font-size'', lit ''fontSize''),
      (lit ''font-weight'', lit ''fontWeight''),
      (lit ''text-anchor'', lit ''textAnchor''),
      (lit ''stop-color'', lit ''stopColor''),
      (lit ''stop-opacity'', lit ''stopOpacity''),
      (lit ''marker-end'', lit ''markerEnd''),
      (lit ''marker-start'', lit ''markerStart''),
      (lit ''marker-mid'', lit ''markerMid'')]"

text \<open>The \<open>forEach\<close> over the entries, in insertion order.\<close>

fun renameAttributes :: "(jsstring \<times> jsstring) list \<Rightarrow> jsstring \<Rightarrow> jsstring" where
  "renameAttributes [] converted = converted"
| "renameAttributes ((old, newAttr) # entries) converted =
     renameAttributes entries (replaceAll old newAttr converted)"

definition convertToReactProps :: "jsstring \<Rightarrow> jsstring" where
  "convertToReactProps svgString =
     trim (replaceSvgTag (renameAttributes attributeMap (removeXmlDecl svgString)))"

section \<open>encodeURIComponent\<close>

text \<open>
  ECMAScript's \<open>Encode\<close> with the unreserved set of \<open>encodeURIComponent\<close>: letters,
  digits and \<open>_-.!~*'()\<close> are kept; any other code point is written as the octets of
  its UTF-8 encoding, each as \<open>%\<close> and two upper-case hexadecimal digits. A surrogate
  that is not part of a pair throws URIError.
\<close>

datatype error = URIError

definition uriUnescaped :: "16 word \<Rightarrow> bool" where
  \<open>uriUnescaped c \<longleftrightarrow>
     (0x41 \<le> c \<and> c \<le> 0x5A) \<or> (0x61 \<le> c \<and> c \<le> 0x7A) \<or> (0x30 \<le> c \<and> c \<le> 0x39)
     \<or> c \<in> set (lit ''_-.!~*'()'')\<close>

definition isLeadingSurrogate :: "16 word \<Rightarrow> bool" where
  "isLeadingSurrogate c \<longleftrightarrow> 0xD800 \<le> c \<and> c \<le> 0xDBFF"

definition isTrailingSurrogate :: "16 word \<Rightarrow> bool" where
  "isTrailingSurrogate c \<longleftrightarrow> 0xDC00 \<le> c \<and> c \<le> 0xDFFF"

definition pairCodePoint :: "16 word \<Rightarrow> 16 word \<Rightarrow> nat" where
  "pairCodePoint lead trail = (unat lead - 0xD800) * 0x400 + (unat trail - 0xDC00) + 0x10000"

text \<open>The octets (numbers below 256) of the UTF-8 encoding of a code point.\<close>

definition utf8Encode :: "nat \<Rightarrow> nat list" where
  "utf8Encode cp =
     (if cp < 0x80 then [cp]
      else if cp < 0x800 then [0xC0 + cp div 0x40, 0x80 + cp mod 0x40]
      else if cp < 0x10000
        then [0xE0 + cp div 0x1000, 0x80 + cp div 0x40 mod 0x40, 0x80 + cp mod 0x40]
      else [0xF0 + cp div 0x40000, 0x80 + cp div 0x1000 mod 0x40,
            0x80 + cp div 0x40 mod 0x40, 0x80 + cp mod 0x40])"

definition hexDigit :: "nat \<Rightarrow> 16 word" where
  "hexDigit n = lit ''0123456789ABCDEF'' ! n"

definition percentOctet :: "nat \<Rightarrow> jsstring" where
  "percentOctet b = [0x25, hexDigit (b div 16), hexDigit (b mod 16)]"

definition percentOctets :: "nat list \<Rightarrow> jsstring" where
  "percentOctets bs = concat (map percentOctet bs)"

fun encodeURIComponent :: "jsstring \<Rightarrow> error + jsstring" where
  "encodeURIComponent [] = Inr []"
| "encodeURIComponent (c # cs) =
     (if uriUnescaped c then
        (case encodeURIComponent cs of Inl e \<Rightarrow> Inl e | Inr r \<Rightarrow> Inr (c # r))
      else if isLeadingSurrogate c then
        (case cs of
           [] \<Rightarrow> Inl URIError
         | d # ds \<Rightarrow>
             if isTrailingSurrogate d then
               (case encodeURIComponent ds of
                  Inl e \<Rightarrow> Inl e
                | Inr r \<Rightarrow> Inr (percentOctets (utf8Encode (pairCodePoint c d)) @ r))
             else Inl URIError)
      else if isTrailingSurrogate c then Inl URIError
      else
        (case encodeURIComponent cs of
           Inl e \<Rightarrow> Inl e
         | Inr r \<Rightarrow> Inr (percentOctets (utf8Encode (unat c)) @ r)))"

section \<open>The format converter\<close>

definition htmlTemplate :: "jsstring \<Rightarrow> jsstring" where
  \<open>htmlTemplate svg = joinLines
     [lit ''<!DOCTYPE html>'',
      lit ''<html lang="en">'',
      lit ''<head>'',
      lit ''  <meta charset="UTF-8">'',
      lit ''  <meta name="viewport" content="width=device-width, initial-scale=1.0">'',
      lit ''  <title>SVG Icon</title>'',
      lit ''</head>'',
      lit ''<body>'',
      lit ''  <div class="icon-container">'',
      lit ''    '' @ svg,
      lit ''  </div>'',
      lit ''</body>'',
      lit ''</html>'']\<close>

definition jsTemplate :: "jsstring \<Rightarrow> jsstring" where
  \<open>jsTemplate svg = joinLines
     [lit ''const IconSvg = `'' @ svg @ lit ''`;'',
      [],
      lit ''export default IconSvg;'']\<close>

definition jsxTemplate :: "jsstring \<Rightarrow> jsstring" where
  \<open>jsxTemplate jsxConverted = joinLines
     [lit ''const Icon = (props) => ('',
      lit ''  '' @ jsxConverted,
      lit '');'',
      [],
      lit ''export default Icon;'']\<close>

definition tsxTemplate :: "jsstring \<Rightarrow> jsstring" where
  \<open>tsxTemplate tsxConverted = joinLines
     [lit ''import { SVGProps } from 'react';'',
      [],
      lit ''const Icon = (props: SVGProps<SVGSVGElement>) => ('',
      lit ''  '' @ tsxConverted,
      lit '');'',
      [],
      lit ''export default Icon;'']\<close>

definition cssTemplate :: "jsstring \<Rightarrow> jsstring" where
  \<open>cssTemplate encodedSvg = joinLines
     [lit ''.icon-bg {'',
      lit ''  background-image: url("data:image/svg+xml;charset=utf8,'' @ encodedSvg @ lit ''");'',
      lit ''  background-size: contain;'',
      lit ''  background-repeat: no-repeat;'',
      lit ''  background-position: center;'',
      lit ''  width: 24px;'',
      lit ''  height: 24px;'',
      lit ''}'']\<close>

text \<open>
  \<open>getTransformedCode\<close> reads \<open>svgContent\<close> and \<open>selectedFormat\<close> from the state;
  the empty content is falsy and returns the empty string before the switch. Only
  the css branch can throw.
\<close>

definition encodedSvg :: "jsstring \<Rightarrow> error + jsstring" where
  \<open>encodedSvg content =
     (case encodeURIComponent content of
        Inl e \<Rightarrow> Inl e
      | Inr enc \<Rightarrow> Inr (replaceAll [0x22] (lit ''%22'') (replaceAll [0x27] (lit ''%27'') enc)))\<close>

definition getTransformedCode :: "jsstring \<Rightarrow> FormatType \<Rightarrow> error + jsstring" where
  \<open>getTransformedCode content format =
     (if content = [] then Inr []
      else case format of
        Raw \<Rightarrow> Inr content
      | Html \<Rightarrow> Inr (htmlTemplate content)
      | Js \<Rightarrow> Inr (jsTemplate content)
      | Jsx \<Rightarrow> Inr (jsxTemplate (convertToReactProps content))
      | Tsx \<Rightarrow> Inr (tsxTemplate (convertToReactProps content))
      | Css \<Rightarrow>
          (case encodedSvg content of
             Inl e \<Rightarrow> Inl e
           | Inr encoded \<Rightarrow> Inr (cssTemplate encoded)))\<close>

section \<open>Reading the data URI back\<close>

text \<open>
  The converter only writes data URIs. What reading one back means is fixed here, for
  the round trip of the css format: the payload is taken out of the rule,
  percent-decoded to octets, and the octets are read as UTF-8.
\<close>

text \<open>No unpaired surrogate: every leading surrogate is followed by a trailing one, and
  no trailing surrogate stands alone.\<close>

fun wellFormed :: "jsstring \<Rightarrow> bool" where
  "wellFormed [] = True"
| "wellFormed (c # cs) =
     (if isLeadingSurrogate c then
        (case cs of [] \<Rightarrow> False | d # ds \<Rightarrow> isTrailingSurrogate d \<and> wellFormed ds)
      else \<not> isTrailingSurrogate c \<and> wellFormed cs)"

text \<open>The code points of a well-formed string.\<close>

fun codePoints :: "jsstring \<Rightarrow> nat list" where
  "codePoints [] = []"
| "codePoints (c # cs) =
     (if isLeadingSurrogate c then
        (case cs of
           [] \<Rightarrow> [unat c]
         | d # ds \<Rightarrow> if isTrailingSurrogate d then pairCodePoint c d # codePoints ds
                    else unat c # codePoints cs)
      else unat c # codePoints cs)"

text \<open>The payload of the data URI in a css rule of the converter: the text between the
  fixed head of the rule and the closing quotation mark.\<close>

definition cssHead :: jsstring where
  \<open>cssHead = lit ''.icon-bg {'' @ nl # lit ''  background-image: url("data:image/svg+xml;charset=utf8,''\<close>

definition dataUriPayload :: "jsstring \<Rightarrow> jsstring option" where
  "dataUriPayload out =
     (if prefix cssHead out
      then Some (takeWhile (\<lambda>c. c \<noteq> 0x22) (drop (length cssHead) out))
      else None)"

text \<open>Percent-decoding: \<open>%\<close> and two hexadecimal digits give an octet, any other ASCII
  code unit stands for itself.\<close>

definition hexValue :: "16 word \<Rightarrow> nat option" where
  "hexValue c =
     (if 0x30 \<le> c \<and> c \<le> 0x39 then Some (unat c - 0x30)
      else if 0x41 \<le> c \<and> c \<le> 0x46 then Some (unat c - 0x41 + 10)
      else if 0x61 \<le> c \<and> c \<le> 0x66 then Some (unat c - 0x61 + 10)
      else None)"

fun percentDecode :: "jsstring \<Rightarrow> nat list option" where
  "percentDecode [] = Some []"
| "percentDecode (c # cs) =
     (if c = 0x25 then
        (case cs of
           h1 # h2 # rest \<Rightarrow>
             (case (hexValue h1, hexValue h2) of
                (Some a, Some b) \<Rightarrow> map_option ((#) (16 * a + b)) (percentDecode rest)
              | _ \<Rightarrow> None)
         | _ \<Rightarrow> None)
      else if c < 0x80 then map_option ((#) (unat c)) (percentDecode cs)
      else None)"

text \<open>Reading octets as UTF-8: shortest form only, no surrogates, at most U+10FFFF.\<close>

definition isContinuation :: "nat \<Rightarrow> bool" where
  "isContinuation b \<longleftrightarrow> 0x80 \<le> b \<and> b < 0xC0"

fun utf8Decode :: "nat list \<Rightarrow> nat list option" where
  "utf8Decode [] = Some []"
| "utf8Decode (b # bs) =
     (if b < 0x80 then map_option ((#) b) (utf8Decode bs)
      else if 0xC0 \<le> b \<and> b < 0xE0 then
        (case bs of
           b1 # rest \<Rightarrow>
             (let cp = (b - 0xC0) * 0x40 + (b1 - 0x80)
              in if isContinuation b1 \<and> 0x80 \<le> cp
                 then map_option ((#) cp) (utf8Decode rest) else None)
         | _ \<Rightarrow> None)
      else if 0xE0 \<le> b \<and> b < 0xF0 then
        (case bs of
           b1 # b2 # rest \<Rightarrow>
             (let cp = (b - 0xE0) * 0x1000 + (b1 - 0x80) * 0x40 + (b2 - 0x80)
              in if isContinuation b1 \<and> isContinuation b2 \<and> 0x800 \<le> cp
                    \<and> \<not> (0xD800 \<le> cp \<and> cp \<le> 0xDFFF)
                 then map_option ((#) cp) (utf8Decode rest) else None)
         | _ \<Rightarrow> None)
      else if 0xF0 \<le> b \<and> b < 0xF8 then
        (case bs of
           b1 # b2 # b3 # rest \<Rightarrow>
             (let cp = (b - 0xF0) * 0x40000 + (b1 - 0x80) * 0x1000 + (b2 - 0x80) * 0x40
                       + (b3 - 0x80)
              in if isContinuation b1 \<and> isContinuation b2 \<and> isContinuation b3
                    \<and> 0x10000 \<le> cp \<and> cp \<le> 0x10FFFF
                 then map_option ((#) cp) (utf8Decode rest) else None)
         | _ \<Rightarrow> None)
      else None)"

text \<open>The UTF-16 code units of a code point.\<close>

definition utf16Encode :: "nat \<Rightarrow> jsstring" where
  "utf16Encode cp =
     (if cp < 0x10000 then [of_nat cp]
      else [of_nat (0xD800 + (cp - 0x10000) div 0x400),
            of_nat (0xDC00 + (cp - 0x10000) mod 0x400)])"

text \<open>Reading a payload back: percent-decoded to octets, the octets read as UTF-8 (the
  charset the URI names), the code points written as a JavaScript string.\<close>

definition decodePayload :: "jsstring \<Rightarrow> jsstring option" where
  "decodePayload payload =
     (case percentDecode payload of
        None \<Rightarrow> None
      | Some octets \<Rightarrow>
          (case utf8Decode octets of
             None \<Rightarrow> None
           | Some cps \<Rightarrow> Some (concat (map utf16Encode cps))))"

section \<open>Predicates used in the statements and proofs\<close>

definition allWhiteSpace :: "jsstring \<Rightarrow> bool" where
  "allWhiteSpace w \<longleftrightarrow> (\<forall>c\<in>set w. isWhiteSpace c)"

definition isLower :: "16 word \<Rightarrow> bool" where
  "isLower c \<longleftrightarrow> 0x61 \<le> c \<and> c \<le> 0x7A"

text \<open>
  The shape of an entry of the table: the key is lower-case letters, one hyphen,
  lower-case letters; the replacement is the key with the hyphen dropped and another
  code unit, which is not a lower-case letter, in place of the letter behind it.
\<close>

definition camelPair :: "jsstring \<Rightarrow> jsstring \<Rightarrow> bool" where
  "camelPair k r \<longleftrightarrow>
     (\<exists>h c t C. k = h @ 0x2D # c # t \<and> r = h @ C # t \<and> h \<noteq> []
        \<and> list_all isLower h \<and> isLower c \<and> list_all isLower t
        \<and> \<not> isLower C \<and> C \<noteq> 0x2D)"

definition hyphenated :: "jsstring \<Rightarrow> bool" where
  "hyphenated p \<longleftrightarrow> (\<exists>a b. p = a @ 0x2D # b \<and> list_all isLower a \<and> list_all isLower b)"

definition borderFree :: "jsstring \<Rightarrow> bool" where
  "borderFree k \<longleftrightarrow> list_all (\<lambda>n. take n k \<noteq> drop (length k - n) k) [1..<length k]"

fun camelCheck :: "jsstring \<Rightarrow> jsstring \<Rightarrow> bool" where
  "camelCheck (x # c # t) (y # r) =
     (if x = 0x2D then isLower c \<and> list_all isLower t \<and> \<not> isLower y \<and> y \<noteq> 0x2D \<and> r = t
      else x = y \<and> isLower x \<and> camelCheck (c # t) r)"
| "camelCheck _ _ = False"

definition entryOk :: "jsstring \<times> jsstring \<Rightarrow> bool" where
  "entryOk e \<longleftrightarrow> camelCheck (fst e) (snd e) \<and> hd (fst e) \<noteq> 0x2D \<and> borderFree (fst e)"

section \<open>Helper facts about the templates\<close>

lemma joinLines_last: "ls \<noteq> [] \<Longrightarrow> suffix (last ls) (joinLines ls)"
proof (induction ls rule: joinLines.induct)
  case (3 l v va)
  then have "suffix (last (v # va)) (joinLines (v # va))" by simp
  then show ?case by (auto simp: suffix_def)
qed simp_all

lemma htmlTemplate_nonempty: "htmlTemplate s \<noteq> []"
  by (simp add: htmlTemplate_def lit_def)

lemma cssTemplate_nonempty: "cssTemplate s \<noteq> []"
  by (simp add: cssTemplate_def lit_def)

section \<open>The opening svg tag: first match only\<close>

lemma matchSvgTag_Some:
  assumes "matchSvgTag s = Some (g, rest)"
  shows \<open>s = lit ''<svg'' @ g @ 0x3E # rest \<and> 0x3E \<notin> set g\<close>
proof -
  let ?p = "\<lambda>c::16 word. c \<noteq> 0x3E"
  from assms have p: \<open>prefix (lit ''<svg'') s\<close>
    by (auto simp: matchSvgTag_def split: if_splits)
  then obtain t where s: \<open>s = lit ''<svg'' @ t\<close> by (auto simp: prefix_def)
  have t: "drop 4 s = t" by (simp add: s lit_def)
  from assms p obtain x where d: "dropWhile ?p t = x # rest" and g: "g = takeWhile ?p t"
    by (auto simp: matchSvgTag_def t split: list.splits)
  have "x = 0x3E" using hd_dropWhile [of ?p t] d by auto
  then have "t = g @ 0x3E # rest"
    using takeWhile_dropWhile_id [of ?p t] d g by simp
  moreover have "0x3E \<notin> set g" using g by (auto dest: set_takeWhileD)
  ultimately show ?thesis using s by simp
qed

lemma matchSvgTag_at_tag:
  assumes "0x3E \<notin> set g"
  shows \<open>matchSvgTag (lit ''<svg'' @ g @ 0x3E # v) = Some (g, v)\<close>
proof -
  let ?p = "\<lambda>c::16 word. c \<noteq> 0x3E"
  have d: \<open>drop 4 (lit ''<svg'' @ g @ 0x3E # v) = g @ 0x3E # v\<close> by (simp add: lit_def)
  have a: "\<forall>x\<in>set g. ?p x" using assms by auto
  have "takeWhile ?p (g @ 0x3E # v) = g" using a by simp
  moreover have "dropWhile ?p (g @ 0x3E # v) = 0x3E # v" using a by simp
  ultimately show ?thesis unfolding matchSvgTag_def d by simp
qed

lemma prefix_append_long:
  "prefix p (x @ y) \<Longrightarrow> length p \<le> length x \<Longrightarrow> prefix p x"
  by (metis prefix_length_prefix prefixI)

lemma replaceSvgTag_first:
  assumes \<open>\<not> sublist (lit ''<svg'') (u @ lit ''<sv'')\<close> and "0x3E \<notin> set g"
  shows \<open>replaceSvgTag (u @ lit ''<svg'' @ g @ 0x3E # v) = u @ lit ''<svg'' @ svgTagAdditions @ g @ 0x3E # v\<close>
  using assms(1)
proof (induction u)
  case Nil
  have \<open>replaceSvgTag (lit ''<svg'' @ g @ 0x3E # v) = lit ''<svg'' @ svgTagAdditions @ g @ 0x3E # v\<close>
    using matchSvgTag_at_tag [OF assms(2), of v]
    by (cases \<open>lit ''<svg'' @ g @ 0x3E # v\<close>) (auto simp: lit_def)
  then show ?case by simp
next
  case (Cons c u)
  have n: \<open>\<not> prefix (lit ''<svg'') ((c # u) @ lit ''<svg'' @ g @ 0x3E # v)\<close>
  proof
    assume a: \<open>prefix (lit ''<svg'') ((c # u) @ lit ''<svg'' @ g @ 0x3E # v)\<close>
    have "(c # u) @ lit ''<svg'' @ g @ 0x3E # v = ((c # u) @ lit ''<sv'') @ (lit ''g'' @ g @ 0x3E # v)"
      by (simp add: lit_def)
    then have \<open>prefix (lit ''<svg'') (((c # u) @ lit ''<sv'') @ (lit ''g'' @ g @ 0x3E # v))\<close>
      using a by simp
    then have \<open>prefix (lit ''<svg'') ((c # u) @ lit ''<sv'')\<close>
      by (rule prefix_append_long) (simp add: lit_def)
    then show False using Cons.prems prefix_imp_sublist by blast
  qed
  then have m: \<open>matchSvgTag (c # u @ lit ''<svg'' @ g @ 0x3E # v) = None\<close>
    by (simp add: matchSvgTag_def)
  have \<open>\<not> sublist (lit ''<svg'') (u @ lit ''<sv'')\<close>
    using Cons.prems by (auto simp: sublist_Cons_right)
  then show ?case using Cons.IH m by simp
qed

lemma replaceSvgTag_no_tag:
  assumes \<open>\<nexists>u g v. s = u @ lit ''<svg'' @ g @ 0x3E # v\<close>
  shows "replaceSvgTag s = s"
  using assms
proof (induction s)
  case Nil
  then show ?case by simp
next
  case (Cons c cs)
  have m: "matchSvgTag (c # cs) = None"
  proof (cases "matchSvgTag (c # cs)")
    case (Some a)
    obtain g rest where "a = (g, rest)" by (cases a)
    with Some have \<open>c # cs = [] @ lit ''<svg'' @ g @ 0x3E # rest\<close>
      using matchSvgTag_Some by simp
    with Cons.prems show ?thesis by blast
  qed simp
  have \<open>\<nexists>u g v. cs = u @ lit ''<svg'' @ g @ 0x3E # v\<close>
  proof
    assume \<open>\<exists>u g v. cs = u @ lit ''<svg'' @ g @ 0x3E # v\<close>
    then obtain u g v where \<open>cs = u @ lit ''<svg'' @ g @ 0x3E # v\<close> by blast
    then have \<open>c # cs = (c # u) @ lit ''<svg'' @ g @ 0x3E # v\<close> by simp
    with Cons.prems show False by blast
  qed
  then show ?case using Cons.IH m by simp
qed

section \<open>Surrounding white space\<close>

lemma prefix_append_disjoint:
  assumes "set p \<inter> set w = {}"
  shows "prefix p (t @ w) \<longleftrightarrow> prefix p t"
proof
  assume "prefix p (t @ w)"
  then consider "prefix p t" | us where "p = t @ us" "prefix us w"
    by (auto simp: prefix_append)
  then show "prefix p t"
  proof cases
    case 2
    show ?thesis
    proof (cases us)
      case Nil
      with 2 show ?thesis by simp
    next
      case (Cons x xs)
      with 2 have "x \<in> set p" "x \<in> set w" by (auto simp: prefix_def)
      with assms show ?thesis by auto
    qed
  qed
next
  assume "prefix p t"
  then show "prefix p (t @ w)" by (rule prefix_prefix)
qed

lemma allWhiteSpace_simps [simp]:
  "allWhiteSpace []"
  "allWhiteSpace (c # w) \<longleftrightarrow> isWhiteSpace c \<and> allWhiteSpace w"
  by (auto simp: allWhiteSpace_def)

lemma not_ws_disjoint:
  "\<forall>c\<in>set p. \<not> isWhiteSpace c \<Longrightarrow> allWhiteSpace w \<Longrightarrow> set p \<inter> set w = {}"
  by (auto simp: allWhiteSpace_def)

lemma lit_xml_not_ws: \<open>\<forall>c\<in>set (lit ''<?xml''). \<not> isWhiteSpace c\<close>
  by (simp add: lit_def isWhiteSpace_def)
lemma lit_qgt_not_ws: \<open>\<forall>c\<in>set (lit ''?>''). \<not> isWhiteSpace c\<close>
  by (simp add: lit_def isWhiteSpace_def)
lemma lit_svg_not_ws: \<open>\<forall>c\<in>set (lit ''<svg''). \<not> isWhiteSpace c\<close>
  by (simp add: lit_def isWhiteSpace_def)
lemma qmark_not_ws: "\<not> isWhiteSpace 0x3F" by (simp add: isWhiteSpace_def)
lemma gt_not_ws: "\<not> isWhiteSpace 0x3E" by (simp add: isWhiteSpace_def)
lemma lt_not_ws: "\<not> isWhiteSpace 0x3C" by (simp add: isWhiteSpace_def)

lemma dropWhile_neq_ws:
  assumes "allWhiteSpace w" "\<not> isWhiteSpace a"
  shows "dropWhile (\<lambda>c. c \<noteq> a) (x @ w) =
         (if a \<in> set x then dropWhile (\<lambda>c. c \<noteq> a) x @ w else [])"
proof (cases "a \<in> set x")
  case True
  then show ?thesis by (simp add: dropWhile_append1)
next
  case False
  have "\<forall>c\<in>set (x @ w). c \<noteq> a" using False assms by (auto simp: allWhiteSpace_def)
  then have "dropWhile (\<lambda>c. c \<noteq> a) (x @ w) = []" by (simp only: dropWhile_eq_Nil_conv) 
  with False show ?thesis by simp
qed

lemma takeWhile_neq_ws:
  assumes "a \<in> set x"
  shows "takeWhile (\<lambda>c. c \<noteq> a) (x @ w) = takeWhile (\<lambda>c. c \<noteq> a) x"
  using assms by (simp add: takeWhile_append1)

lemma matchXmlDecl_trailing_ws:
  assumes "allWhiteSpace w"
  shows "matchXmlDecl (t @ w) = map_option (\<lambda>r. r @ w) (matchXmlDecl t)"
proof (cases \<open>prefix (lit ''<?xml'') t\<close>)
  case False
  then have \<open>\<not> prefix (lit ''<?xml'') (t @ w)\<close>
    using prefix_append_disjoint [OF not_ws_disjoint [OF lit_xml_not_ws assms]] by simp
  with False show ?thesis by (simp add: matchXmlDecl_def)
next
  case True
  then have l: "5 \<le> length t" using prefix_length_le [OF True] by (simp add: lit_def)
  let ?x = "drop 5 t"
  let ?q = "\<lambda>c::16 word. c \<noteq> 0x3F"
  have d: "drop 5 (t @ w) = ?x @ w" using l by simp
  have p: \<open>prefix (lit ''<?xml'') (t @ w)\<close> using True by (rule prefix_prefix)
  show ?thesis
  proof (cases "0x3F \<in> set ?x")
    case False
    then have e1: "dropWhile ?q (?x @ w) = []"
      using dropWhile_neq_ws [OF assms qmark_not_ws, of ?x] by simp
    have e2: "dropWhile ?q ?x = []" using False by auto
    have n: \<open>\<not> prefix (lit ''?>'') []\<close> by (simp add: lit_def)
    show ?thesis unfolding matchXmlDecl_def d e1 e2 Let_def using True p n by simp
  next
    case q: True
    let ?r = "dropWhile ?q ?x"
    have r: "dropWhile ?q (?x @ w) = ?r @ w"
      using dropWhile_neq_ws [OF assms qmark_not_ws, of ?x] q by simp
    have pr: \<open>prefix (lit ''?>'') (?r @ w) \<longleftrightarrow> prefix (lit ''?>'') ?r\<close>
      using prefix_append_disjoint [OF not_ws_disjoint [OF lit_qgt_not_ws assms]] by simp
    show ?thesis
    proof (cases \<open>prefix (lit ''?>'') ?r\<close>)
      case False
      then show ?thesis using True p pr unfolding matchXmlDecl_def d r by simp
    next
      case r2: True
      then have "2 \<le> length ?r" using prefix_length_le [OF r2] by (simp add: lit_def)
      then have "drop 2 (?r @ w) = drop 2 ?r @ w" by simp
      then show ?thesis using True p pr r2 unfolding matchXmlDecl_def d r by simp
    qed
  qed
qed

lemma matchXmlDecl_leading_ws: "isWhiteSpace c \<Longrightarrow> matchXmlDecl (c # t) = None"
  using lt_not_ws by (auto simp: matchXmlDecl_def lit_def)

lemma removeXmlDecl_leading_ws:
  "allWhiteSpace w \<Longrightarrow> removeXmlDecl (w @ s) = w @ removeXmlDecl s"
  by (induction w) (simp_all add: matchXmlDecl_leading_ws)

lemma removeXmlDecl_trailing_ws:
  assumes "allWhiteSpace w"
  shows "removeXmlDecl (s @ w) = removeXmlDecl s @ w"
proof (induction s rule: removeXmlDecl.induct)
  case 1
  show ?case using removeXmlDecl_leading_ws [OF assms, of "[]"] by simp
next
  case (2 c cs)
  show ?case
  proof (cases "matchXmlDecl (c # cs)")
    case None
    then have "matchXmlDecl (c # cs @ w) = None"
      using matchXmlDecl_trailing_ws [OF assms, of "c # cs"] by simp
    with None 2 show ?thesis by simp
  next
    case (Some rest)
    then have "matchXmlDecl (c # cs @ w) = Some (rest @ w)"
      using matchXmlDecl_trailing_ws [OF assms, of "c # cs"] by simp
    with Some 2 show ?thesis by simp
  qed
qed

lemma matchSvgTag_trailing_ws:
  assumes "allWhiteSpace w"
  shows "matchSvgTag (t @ w) = map_option (\<lambda>(g, r). (g, r @ w)) (matchSvgTag t)"
proof (cases \<open>prefix (lit ''<svg'') t\<close>)
  case False
  then have \<open>\<not> prefix (lit ''<svg'') (t @ w)\<close>
    using prefix_append_disjoint [OF not_ws_disjoint [OF lit_svg_not_ws assms]] by simp
  with False show ?thesis by (simp add: matchSvgTag_def)
next
  case True
  then have l: "4 \<le> length t" using prefix_length_le [OF True] by (simp add: lit_def)
  let ?x = "drop 4 t"
  let ?q = "\<lambda>c::16 word. c \<noteq> 0x3E"
  have d: "drop 4 (t @ w) = ?x @ w" using l by simp
  have p: \<open>prefix (lit ''<svg'') (t @ w)\<close> using True by (rule prefix_prefix)
  show ?thesis
  proof (cases "0x3E \<in> set ?x")
    case False
    then have e1: "dropWhile ?q (?x @ w) = []"
      using dropWhile_neq_ws [OF assms gt_not_ws, of ?x] by simp
    have e2: "dropWhile ?q ?x = []" using False by auto
    show ?thesis unfolding matchSvgTag_def d e1 e2 using True p by simp
  next
    case q: True
    have r: "dropWhile ?q (?x @ w) = dropWhile ?q ?x @ w"
      using dropWhile_neq_ws [OF assms gt_not_ws, of ?x] q by simp
    have tk: "takeWhile ?q (?x @ w) = takeWhile ?q ?x"
      using q by (rule takeWhile_neq_ws)
    have "dropWhile ?q ?x \<noteq> []" using q by auto
    then obtain y ys where ys: "dropWhile ?q ?x = y # ys" by (cases "dropWhile ?q ?x") auto
    show ?thesis using True p unfolding matchSvgTag_def d r tk ys by simp
  qed
qed

lemma matchSvgTag_leading_ws: "isWhiteSpace c \<Longrightarrow> matchSvgTag (c # t) = None"
  using lt_not_ws by (auto simp: matchSvgTag_def lit_def)

lemma replaceSvgTag_leading_ws:
  "allWhiteSpace w \<Longrightarrow> replaceSvgTag (w @ s) = w @ replaceSvgTag s"
  by (induction w) (simp_all add: matchSvgTag_leading_ws)

lemma replaceSvgTag_trailing_ws:
  assumes "allWhiteSpace w"
  shows "replaceSvgTag (s @ w) = replaceSvgTag s @ w"
proof (induction s)
  case Nil
  show ?case using replaceSvgTag_leading_ws [OF assms, of "[]"] by simp
next
  case (Cons c cs)
  show ?case
  proof (cases "matchSvgTag (c # cs)")
    case None
    then have "matchSvgTag (c # cs @ w) = None"
      using matchSvgTag_trailing_ws [OF assms, of "c # cs"] by simp
    with None Cons show ?thesis by simp
  next
    case (Some a)
    obtain g rest where a: "a = (g, rest)" by (cases a)
    then have "matchSvgTag (c # cs @ w) = Some (g, rest @ w)"
      using matchSvgTag_trailing_ws [OF assms, of "c # cs"] Some by simp
    with Some a show ?thesis by simp
  qed
qed

lemma replaceAll_leading_ws:
  assumes "k \<noteq> []" "\<forall>c\<in>set k. \<not> isWhiteSpace c" "allWhiteSpace w"
  shows "replaceAll k r (w @ s) = w @ replaceAll k r s"
  using assms(3)
proof (induction w)
  case Nil
  then show ?case by simp
next
  case (Cons c w)
  obtain k0 ks where k: "k = k0 # ks" using assms(1) by (cases k) auto
  have "k0 \<noteq> c" using Cons.prems assms(2) k by auto
  then show ?case using Cons k by simp
qed

lemma replaceAll_trailing_ws:
  assumes "k \<noteq> []" "\<forall>c\<in>set k. \<not> isWhiteSpace c" "allWhiteSpace w"
  shows "replaceAll k r (s @ w) = replaceAll k r s @ w"
proof -
  obtain k0 ks where k: "k = k0 # ks" using assms(1) by (cases k) auto
  have pd: "\<And>t. prefix (k0 # ks) (t @ w) \<longleftrightarrow> prefix (k0 # ks) t"
    using prefix_append_disjoint [OF not_ws_disjoint [OF assms(2,3)]] k by simp
  have "replaceAll (k0 # ks) r (s @ w) = replaceAll (k0 # ks) r s @ w"
  proof (induction "k0 # ks" r s rule: replaceAll.induct)
    case (2 r)
    show ?case using replaceAll_leading_ws [OF assms, of r "[]"] k by simp
  next
    case (3 r c cs)
    show ?case
    proof (cases "prefix (k0 # ks) (c # cs)")
      case True
      have l: "length (k0 # ks) \<le> length (c # cs)" by (rule prefix_length_le [OF True])
      have d: "drop (length (k0 # ks)) ((c # cs) @ w) = drop (length (k0 # ks)) (c # cs) @ w"
        using l by simp
      have t: "prefix (k0 # ks) ((c # cs) @ w)" using pd [of "c # cs"] True by simp
      have "replaceAll (k0 # ks) r ((c # cs) @ w)
            = r @ replaceAll (k0 # ks) r (drop (length (k0 # ks)) (c # cs) @ w)"
        using t d by (simp del: prefix_Cons drop_Suc_Cons length_Cons add: prefix_Cons [symmetric])
      also have "\<dots> = r @ replaceAll (k0 # ks) r (drop (length (k0 # ks)) (c # cs)) @ w"
        using 3(1) [OF True] by simp
      also have "\<dots> = replaceAll (k0 # ks) r (c # cs) @ w"
        using True by simp
      finally show ?thesis .
    next
      case False
      have f: "\<not> prefix (k0 # ks) ((c # cs) @ w)" using pd [of "c # cs"] False by simp
      have "replaceAll (k0 # ks) r ((c # cs) @ w) = c # replaceAll (k0 # ks) r (cs @ w)"
        using f by auto
      also have "\<dots> = c # replaceAll (k0 # ks) r cs @ w"
        using 3(2) [OF False] by simp
      also have "\<dots> = replaceAll (k0 # ks) r (c # cs) @ w"
        using False by auto
      finally show ?thesis .
    qed
  qed
  then show ?thesis using k by simp
qed

section \<open>Passes of the attribute renaming\<close>

lemma hyphen_not_lower: "\<not> isLower 0x2D"
  by (simp add: isLower_def)

lemma lower_no_hyphen: "list_all isLower x \<Longrightarrow> 0x2D \<notin> set x"
  using hyphen_not_lower by (auto simp: list_all_iff)

lemma camelPair_hyphenated:
  assumes "camelPair k r"
  shows "hyphenated k"
proof -
  from assms obtain h c t where "k = h @ 0x2D # (c # t)" "list_all isLower h"
    "list_all isLower (c # t)"
    unfolding camelPair_def by auto
  then show ?thesis unfolding hyphenated_def by blast
qed

lemma replaceAll_match:
  "k \<noteq> [] \<Longrightarrow> replaceAll k r (k @ x) = r @ replaceAll k r x"
  by (cases k) simp_all

lemma replaceAll_Cons_nomatch:
  "k \<noteq> [] \<Longrightarrow> \<not> prefix k (c # cs) \<Longrightarrow> replaceAll k r (c # cs) = c # replaceAll k r cs"
  by (cases k) auto

lemma replaceAll_Nil: "k \<noteq> [] \<Longrightarrow> replaceAll k r [] = []"
  by (cases k) simp_all

lemma replaceAll_induct [consumes 1, case_names Nil Match Skip]:
  assumes "k \<noteq> []"
    and "P []"
    and "\<And>x. P x \<Longrightarrow> P (k @ x)"
    and "\<And>c cs. \<not> prefix k (c # cs) \<Longrightarrow> P cs \<Longrightarrow> P (c # cs)"
  shows "P s"
proof (induction s rule: length_induct)
  case (1 s)
  show ?case
  proof (cases s)
    case Nil
    then show ?thesis using assms(2) by simp
  next
    case (Cons c cs)
    show ?thesis
    proof (cases "prefix k s")
      case True
      then obtain x where x: "s = k @ x" by (auto simp: prefix_def)
      then have "length x < length s" using assms(1) by simp
      then have "P x" using 1 by blast
      then show ?thesis using assms(3) x by simp
    next
      case False
      have "P cs" using 1 Cons by simp
      then show ?thesis using assms(4) False Cons by simp
    qed
  qed
qed

text \<open>A code unit that the replacement does not contain and that survives the pass was
  not part of a match: the pass works on both sides of it separately.\<close>

lemma replaceAll_split_at:
  assumes "k \<noteq> []" "y \<notin> set r"
  shows "replaceAll k r s = u' @ y # v' \<Longrightarrow>
         \<exists>u v. s = u @ y # v \<and> u' = replaceAll k r u \<and> v' = replaceAll k r v"
  using assms(1)
proof (induction s arbitrary: u' rule: replaceAll_induct)
  case Nil
  then show ?case using assms(1) by (simp add: replaceAll_Nil)
next
  case (Match x)
  then have e: "r @ replaceAll k r x = u' @ y # v'"
    using assms(1) by (simp add: replaceAll_match)
  then obtain w where w: "u' = r @ w" "replaceAll k r x = w @ y # v'"
  proof -
    from e consider w where "r = u' @ w" "w @ replaceAll k r x = y # v'"
      | w where "r @ w = u'" "replaceAll k r x = w @ y # v'"
      by (auto simp: append_eq_append_conv2)
    then show ?thesis
    proof cases
      case 1
      show ?thesis
      proof (cases w)
        case Nil
        with 1 that [of "[]"] show ?thesis by simp
      next
        case (Cons a as)
        with 1 have "y \<in> set r" by simp
        with assms(2) show ?thesis by simp
      qed
    next
      case 2
      with that show ?thesis by blast
    qed
  qed
  from Match.IH [OF w(2)] obtain u v where
    uv: "x = u @ y # v" "w = replaceAll k r u" "v' = replaceAll k r v" by blast
  have "k @ x = (k @ u) @ y # v" using uv by simp
  moreover have "u' = replaceAll k r (k @ u)"
    using w uv assms(1) by (simp add: replaceAll_match)
  ultimately show ?case using uv by blast
next
  case (Skip c cs)
  then have e: "c # replaceAll k r cs = u' @ y # v'"
    using assms(1) by (simp add: replaceAll_Cons_nomatch)
  show ?case
  proof (cases u')
    case Nil
    with e have "c # cs = [] @ y # cs" "u' = replaceAll k r []" "v' = replaceAll k r cs"
      using assms(1) by (simp_all add: replaceAll_Nil)
    then show ?thesis by blast
  next
    case (Cons d ds)
    with e have d: "d = c" and ds: "replaceAll k r cs = ds @ y # v'" by simp_all
    from Skip.IH [OF ds] obtain u v where
      uv: "cs = u @ y # v" "ds = replaceAll k r u" "v' = replaceAll k r v" by blast
    have "\<not> prefix k (c # u)"
      using Skip.hyps uv by (metis append_Cons prefix_prefix)
    then have "u' = replaceAll k r (c # u)"
      using Cons d uv assms(1) by (simp add: replaceAll_Cons_nomatch)
    moreover have "c # cs = (c # u) @ y # v" using uv by simp
    ultimately show ?thesis using uv by blast
  qed
qed

text \<open>When a code unit of the replacement is missing from the result, nothing matched.\<close>

lemma replaceAll_unchanged:
  assumes "k \<noteq> []" "C \<in> set r"
  shows "C \<notin> set (replaceAll k r s) \<Longrightarrow> replaceAll k r s = s"
  using assms(1)
proof (induction s rule: replaceAll_induct)
  case Nil
  then show ?case using assms(1) by (simp add: replaceAll_Nil)
next
  case (Match x)
  then show ?case using assms by (simp add: replaceAll_match)
next
  case (Skip c cs)
  then show ?case using assms(1) by (simp add: replaceAll_Cons_nomatch)
qed

lemma replaceAll_absent:
  assumes "k \<noteq> []" "y \<in> set k" "y \<notin> set s"
  shows "replaceAll k r s = s"
  using assms(3)
proof (induction s)
  case Nil
  then show ?case using assms(1) by (simp add: replaceAll_Nil)
next
  case (Cons c cs)
  have "\<not> prefix k (c # cs)"
  proof
    assume "prefix k (c # cs)"
    then have "set k \<subseteq> set (c # cs)" by (rule set_mono_prefix)
    with assms(2) Cons.prems show False by auto
  qed
  then show ?case using Cons assms(1) by (simp add: replaceAll_Cons_nomatch)
qed

lemma lower_prefix_of_head:
  assumes "list_all isLower b" "\<not> isLower C" "prefix b (h @ C # z)"
  shows "prefix b h"
proof -
  from assms(3) consider "prefix b h" | us where "b = h @ us" "prefix us (C # z)"
    by (auto simp: prefix_append)
  then show ?thesis
  proof cases
    case 2
    show ?thesis
    proof (cases us)
      case Nil
      with 2 show ?thesis by simp
    next
      case (Cons x xs)
      with 2 have "C \<in> set b" by (auto simp: prefix_Cons)
      with assms(1,2) show ?thesis by (auto simp: list_all_iff)
    qed
  qed
qed

lemma lower_suffix_of_tail:
  assumes "list_all isLower a" "\<not> isLower C" "suffix a (h @ C # t)"
  shows "suffix a t"
proof -
  have "suffix a ((h @ [C]) @ t)" using assms(3) by simp
  then consider "suffix a t" | x where "a = x @ t" "suffix x (h @ [C])"
    unfolding suffix_append by blast
  then show ?thesis
  proof cases
    case 2
    show ?thesis
    proof (cases "x = []")
      case True
      with 2 show ?thesis by simp
    next
      case False
      with 2 have "last x = C" by (auto simp: suffix_def) (metis last_appendR last_snoc snoc_eq_iff_butlast)
      with False have "C \<in> set x" using last_in_set by metis
      with 2 assms(1,2) show ?thesis by (auto simp: list_all_iff)
    qed
  qed
qed

text \<open>Lower-case letters in front of a surviving code unit were there before the pass.\<close>

lemma replaceAll_lower_prefix:
  assumes "camelPair k r" "list_all isLower b"
  shows "prefix b (replaceAll k r v) \<Longrightarrow> prefix b v"
proof -
  from assms(1) obtain h c t C where
    k: "k = h @ 0x2D # c # t" and r: "r = h @ C # t" and C: "\<not> isLower C"
    unfolding camelPair_def by blast
  have kn: "k \<noteq> []" using k by simp
  show "prefix b (replaceAll k r v) \<Longrightarrow> prefix b v"
    using kn assms(2)
  proof (induction v arbitrary: b rule: replaceAll_induct)
    case Nil
    then show ?case using kn by (simp add: replaceAll_Nil)
  next
    case (Match x)
    then have "prefix b (h @ C # (t @ replaceAll k r x))"
      using kn r by (simp add: replaceAll_match)
    then have "prefix b h"
      using lower_prefix_of_head [OF Match.prems(2) C] by blast
    then show ?case using k by (auto intro: prefix_prefix)
  next
    case (Skip c cs)
    then have p: "prefix b (c # replaceAll k r cs)"
      using kn by (simp add: replaceAll_Cons_nomatch)
    show ?case
    proof (cases b)
      case Nil
      then show ?thesis by simp
    next
      case (Cons d ds)
      with p have "d = c" "prefix ds (replaceAll k r cs)" by simp_all
      moreover have "list_all isLower ds" using Skip.prems(2) Cons by simp
      ultimately show ?thesis using Skip.IH [of ds] Cons by simp
    qed
  qed
qed

lemma replaceAll_lower_suffix:
  assumes "camelPair k r" "list_all isLower a"
  shows "suffix a (replaceAll k r u) \<Longrightarrow> suffix a u"
proof -
  from assms(1) obtain h c t C where
    k: "k = h @ 0x2D # c # t" and r: "r = h @ C # t" and C: "\<not> isLower C"
    unfolding camelPair_def by blast
  have kn: "k \<noteq> []" using k by simp
  have Cr: "C \<in> set r" using r by simp
  have same: "replaceAll k r x = x" if "set (replaceAll k r x) \<subseteq> set a" for x
  proof -
    have "C \<notin> set (replaceAll k r x)"
      using that assms(2) C by (auto simp: list_all_iff)
    then show ?thesis by (rule replaceAll_unchanged [OF kn Cr])
  qed
  show "suffix a (replaceAll k r u) \<Longrightarrow> suffix a u"
    using kn
  proof (induction u rule: replaceAll_induct)
    case Nil
    then show ?case using kn by (simp add: replaceAll_Nil)
  next
    case (Match x)
    then have "suffix a (r @ replaceAll k r x)"
      using kn by (simp add: replaceAll_match)
    then consider "suffix a (replaceAll k r x)"
      | a1 where "a = a1 @ replaceAll k r x" "suffix a1 r"
      unfolding suffix_append by blast
    then show ?case
    proof cases
      case 1
      then have "suffix a x" by (rule Match.IH)
      then show ?thesis by (rule suffix_appendI)
    next
      case 2
      then have x: "replaceAll k r x = x" by (intro same) simp
      have "list_all isLower a1" using 2(1) assms(2) by simp
      then have "suffix a1 t"
        using lower_suffix_of_tail [OF _ C] 2(2) r by blast
      then have "suffix a1 k" unfolding k by (auto simp: suffix_def)
      then show ?thesis using 2(1) x by (auto simp: suffix_def)
    qed
  next
    case (Skip c cs)
    then have "suffix a (c # replaceAll k r cs)"
      using kn by (simp add: replaceAll_Cons_nomatch)
    then consider "a = c # replaceAll k r cs" | "suffix a (replaceAll k r cs)"
      unfolding suffix_Cons by blast
    then show ?case
    proof cases
      case 1
      then have "replaceAll k r cs = cs" by (intro same) auto
      with 1 show ?thesis by simp
    next
      case 2
      then have "suffix a cs" by (rule Skip.IH)
      then show ?thesis by (rule suffix_ConsI)
    qed
  qed
qed

text \<open>A pass creates no hyphenated lower-case name that was not there before.\<close>

lemma replaceAll_creates_no_name:
  assumes "camelPair k r" "hyphenated p" "sublist p (replaceAll k r s)"
  shows "sublist p s"
proof -
  from assms(1) obtain h c t C where
    k: "k = h @ 0x2D # c # t" and r: "r = h @ C # t" and C: "C \<noteq> 0x2D"
    and low: "list_all isLower h" "list_all isLower t"
    unfolding camelPair_def by blast
  have kn: "k \<noteq> []" using k by simp
  have hr: "0x2D \<notin> set r"
    using r C lower_no_hyphen [OF low(1)] lower_no_hyphen [OF low(2)] by simp
  from assms(2) obtain a b where
    p: "p = a @ 0x2D # b" and a: "list_all isLower a" and b: "list_all isLower b"
    unfolding hyphenated_def by blast
  from assms(3) obtain x y where "replaceAll k r s = x @ p @ y"
    by (auto simp: sublist_def)
  then have "replaceAll k r s = (x @ a) @ 0x2D # (b @ y)" using p by simp
  from replaceAll_split_at [OF kn hr this] obtain u v where
    uv: "s = u @ 0x2D # v" "x @ a = replaceAll k r u" "b @ y = replaceAll k r v" by blast
  have "suffix a (replaceAll k r u)" using uv(2) by (metis suffixI)
  then have "suffix a u" by (rule replaceAll_lower_suffix [OF assms(1) a])
  then obtain u0 where u0: "u = u0 @ a" by (auto simp: suffix_def)
  have "prefix b (replaceAll k r v)" using uv(3) by (metis prefixI)
  then have "prefix b v" by (rule replaceAll_lower_prefix [OF assms(1) b])
  then obtain v0 where v0: "v = b @ v0" by (auto simp: prefix_def)
  have "s = u0 @ p @ v0" using uv(1) u0 v0 p by simp
  then show ?thesis by (auto simp: sublist_def)
qed

lemma borderFree_no_border:
  assumes "borderFree k" "x \<noteq> []" "length x < length k" "prefix x k" "suffix x k"
  shows False
proof -
  let ?n = "length x"
  have "?n \<in> set [1..<length k]" using assms(2,3) by (cases x) auto
  then have ne: "take ?n k \<noteq> drop (length k - ?n) k"
    using assms(1) by (auto simp: borderFree_def list_all_iff)
  from assms(4) obtain z where "k = x @ z" by (auto simp: prefix_def)
  then have "take ?n k = x" by simp
  moreover from assms(5) obtain w where "k = w @ x" by (auto simp: suffix_def)
  then have "drop (length k - ?n) k = x" by simp
  ultimately show False using ne by simp
qed

lemma first_occurrence_unique:
  "x @ y # u = x' @ y # u' \<Longrightarrow> y \<notin> set x \<Longrightarrow> y \<notin> set x' \<Longrightarrow> x = x' \<and> u = u'"
proof (induction x arbitrary: x')
  case Nil
  then show ?case by (cases x') auto
next
  case (Cons a x)
  then show ?case by (cases x') auto
qed

text \<open>A pass leaves no occurrence of its own key.\<close>

lemma replaceAll_removes_key:
  assumes "camelPair k r" "borderFree k"
  shows "\<not> sublist k (replaceAll k r s)"
proof
  assume sub: "sublist k (replaceAll k r s)"
  from assms(1) obtain h c t C where
    k: "k = h @ 0x2D # c # t" and r: "r = h @ C # t" and C: "C \<noteq> 0x2D" and hn: "h \<noteq> []"
    and low: "list_all isLower h" "list_all isLower (c # t)"
    unfolding camelPair_def by auto
  have kn: "k \<noteq> []" using k by simp
  have hk: "0x2D \<in> set k" using k by simp
  have hh: "0x2D \<notin> set h" by (rule lower_no_hyphen [OF low(1)])
  have ht: "0x2D \<notin> set (c # t)" by (rule lower_no_hyphen [OF low(2)])
  have hr: "0x2D \<notin> set r" using r C hh ht by simp
  from sub obtain x y where "replaceAll k r s = x @ k @ y"
    by (auto simp: sublist_def)
  then have e: "replaceAll k r s = (x @ h) @ 0x2D # ((c # t) @ y)" using k by simp
  from replaceAll_split_at [OF kn hr e] obtain u v where
    uv: "s = u @ 0x2D # v" "x @ h = replaceAll k r u" "(c # t) @ y = replaceAll k r v"
    by blast
  have "suffix h (replaceAll k r u)" using uv(2) by (metis suffixI)
  then have su: "suffix h u" by (rule replaceAll_lower_suffix [OF assms(1) low(1)])
  have "prefix (c # t) (replaceAll k r v)" using uv(3) by (metis prefixI)
  then have "prefix (c # t) v" by (rule replaceAll_lower_prefix [OF assms(1) low(2)])
  then obtain v1 where v1: "v = (c # t) @ v1" by (auto simp: prefix_def)
  have eq: "replaceAll k r (u @ 0x2D # v) = replaceAll k r u @ 0x2D # replaceAll k r v"
    using e uv by simp
  have at_h: False if "replaceAll k r (h @ 0x2D # v) = replaceAll k r h @ 0x2D # replaceAll k r v"
  proof -
    have "h @ 0x2D # v = k @ v1" using k v1 by simp
    then have "replaceAll k r (h @ 0x2D # v) = h @ C # t @ replaceAll k r v1"
      using kn r by (simp add: replaceAll_match)
    moreover have "replaceAll k r h = h" by (rule replaceAll_absent [OF kn hk hh])
    ultimately show False using that C by simp
  qed
  have "replaceAll k r (u @ 0x2D # v) = replaceAll k r u @ 0x2D # replaceAll k r v
        \<Longrightarrow> suffix h u \<Longrightarrow> False" for u
    using kn
  proof (induction u rule: replaceAll_induct)
    case Nil
    then show ?case using hn by simp
  next
    case (Match z)
    have "replaceAll k r ((k @ z) @ 0x2D # v) = r @ replaceAll k r (z @ 0x2D # v)"
      using kn replaceAll_match [of k r "z @ 0x2D # v"] by simp
    then have e': "replaceAll k r (z @ 0x2D # v) = replaceAll k r z @ 0x2D # replaceAll k r v"
      using Match.prems(1) kn by (simp add: replaceAll_match)
    from Match.prems(2) consider "suffix h z" | h1 where "h = h1 @ z" "suffix h1 k"
      unfolding suffix_append by blast
    then have "suffix h z"
    proof cases
      case 2
      show ?thesis
      proof (cases "h1 = []")
        case True
        with 2 show ?thesis by simp
      next
        case False
        have "prefix h1 k" using 2(1) k by simp
        moreover have "length h1 < length k" using 2(1) k by simp
        ultimately show ?thesis
          using borderFree_no_border [OF assms(2) False] 2(2) by blast
      qed
    qed
    then show ?case using Match.IH [OF e'] by blast
  next
    case (Skip d ds)
    have neq: "d # ds \<noteq> h" using at_h Skip.prems(1) by auto
    have np: "\<not> prefix k ((d # ds) @ 0x2D # v)"
    proof
      assume pk: "prefix k ((d # ds) @ 0x2D # v)"
      have "prefix (d # ds) ((d # ds) @ 0x2D # v)" by simp
      with pk have "prefix (d # ds) k" using Skip.hyps prefix_same_cases by blast
      then obtain w where w: "k = (d # ds) @ w" by (auto simp: prefix_def)
      with pk have "prefix w (0x2D # v)" by simp
      moreover have "w \<noteq> []" using w Skip.hyps by auto
      ultimately obtain w' where w': "w = 0x2D # w'" by (cases w) auto
      have hd: "h @ 0x2D # (c # t) = (d # ds) @ 0x2D # w'" using w w' k by simp
      have "0x2D \<notin> set (d # ds)"
      proof
        assume "0x2D \<in> set (d # ds)"
        then obtain p q where pq: "d # ds = p @ 0x2D # q" "0x2D \<notin> set p"
          by (meson split_list_first)
        then have "h @ 0x2D # (c # t) = p @ 0x2D # (q @ 0x2D # w')"
          using w w' k by simp
        from first_occurrence_unique [OF this hh pq(2)]
        have "c # t = q @ 0x2D # w'" by simp
        then show False using ht by (metis in_set_conv_decomp)
      qed
      from first_occurrence_unique [OF hd hh this] have "h = d # ds" by simp
      then show False using neq by simp
    qed
    have "replaceAll k r ((d # ds) @ 0x2D # v) = d # replaceAll k r (ds @ 0x2D # v)"
      using np kn replaceAll_Cons_nomatch [of k d "ds @ 0x2D # v" r] by simp
    moreover have "replaceAll k r (d # ds) = d # replaceAll k r ds"
      using Skip.hyps kn by (simp add: replaceAll_Cons_nomatch)
    ultimately have e': "replaceAll k r (ds @ 0x2D # v)
        = replaceAll k r ds @ 0x2D # replaceAll k r v"
      using Skip.prems(1) by simp
    from Skip.prems(2) neq have "suffix h ds" by (auto simp: suffix_Cons)
    then show ?case using Skip.IH [OF e'] by blast
  qed
  then show False using eq su by blast
qed

lemma renameAttributes_creates_no_name:
  assumes "hyphenated p"
  shows "list_all (\<lambda>(k, r). camelPair k r) entries \<Longrightarrow> \<not> sublist p s
         \<Longrightarrow> \<not> sublist p (renameAttributes entries s)"
proof (induction entries arbitrary: s)
  case Nil
  then show ?case by simp
next
  case (Cons e entries)
  obtain k r where e: "e = (k, r)" by (cases e)
  have "\<not> sublist p (replaceAll k r s)"
    using replaceAll_creates_no_name [OF _ assms] Cons.prems e by auto
  then show ?case using Cons e by simp
qed

lemma renameAttributes_removes_keys:
  "list_all (\<lambda>(k, r). camelPair k r \<and> borderFree k) entries \<Longrightarrow> (k, r) \<in> set entries
   \<Longrightarrow> \<not> sublist k (renameAttributes entries s)"
proof (induction entries arbitrary: s)
  case Nil
  then show ?case by simp
next
  case (Cons e entries)
  obtain k1 r1 where e: "e = (k1, r1)" by (cases e)
  have ok: "camelPair k1 r1" "borderFree k1"
    and rest: "list_all (\<lambda>(k, r). camelPair k r \<and> borderFree k) entries"
    using Cons.prems(1) e by simp_all
  show ?case
  proof (cases "(k, r) \<in> set entries")
    case True
    then show ?thesis using Cons.IH [OF rest] e by simp
  next
    case False
    then have kk: "k = k1" "r = r1" using Cons.prems(2) e by simp_all
    have "\<not> sublist k (replaceAll k1 r1 s)"
      using replaceAll_removes_key [OF ok] kk by simp
    moreover have "list_all (\<lambda>(k, r). camelPair k r) entries"
      using rest by (auto simp: list_all_iff)
    moreover have "hyphenated k" using camelPair_hyphenated ok(1) kk by simp
    ultimately show ?thesis
      using renameAttributes_creates_no_name e by simp
  qed
qed

lemma camelCheck_shape:
  "camelCheck k r \<Longrightarrow>
     \<exists>h c t C. k = h @ 0x2D # c # t \<and> r = h @ C # t \<and> list_all isLower h \<and> isLower c
        \<and> list_all isLower t \<and> \<not> isLower C \<and> C \<noteq> 0x2D"
proof (induction k r rule: camelCheck.induct)
  case (1 x c t y r)
  show ?case
  proof (cases "x = 0x2D")
    case True
    with 1(2) have "x # c # t = [] @ 0x2D # c # t" "y # r = [] @ y # t" "list_all isLower []"
      "isLower c" "list_all isLower t" "\<not> isLower y" "y \<noteq> 0x2D" by simp_all
    then show ?thesis by blast
  next
    case False
    with 1(2) have xy: "x = y" "isLower x" and cc: "camelCheck (c # t) r" by auto
    from 1(1) [OF False cc] obtain h c' t' C where
      h: "c # t = h @ 0x2D # c' # t'" "r = h @ C # t'" "list_all isLower h" "isLower c'"
        "list_all isLower t'" "\<not> isLower C" "C \<noteq> 0x2D" by blast
    then have "x # c # t = (x # h) @ 0x2D # c' # t'" "y # r = (x # h) @ C # t'"
      "list_all isLower (x # h)" using xy by simp_all
    with h show ?thesis by blast
  qed
qed simp_all

lemma camelCheck_camelPair:
  assumes "camelCheck k r" "hd k \<noteq> 0x2D"
  shows "camelPair k r"
proof -
  from camelCheck_shape [OF assms(1)] obtain h c t C where
    h: "k = h @ 0x2D # c # t" "r = h @ C # t" "list_all isLower h" "isLower c"
      "list_all isLower t" "\<not> isLower C" "C \<noteq> 0x2D" by blast
  have "h \<noteq> []" using h(1) assms(2) by auto
  with h show ?thesis unfolding camelPair_def by blast
qed

lemma attributeMap_entryOk: "list_all entryOk attributeMap"
  by code_simp

section \<open>The table of the source\<close>

lemma attributeMap_shape: "list_all (\<lambda>(k, r). camelPair k r \<and> borderFree k) attributeMap"
  unfolding list_all_iff
proof
  fix e assume "e \<in> set attributeMap"
  then have ok: "entryOk e" using attributeMap_entryOk by (simp add: list_all_iff)
  obtain k r where e: "e = (k, r)" by (cases e)
  have "camelPair k r"
    using ok e by (intro camelCheck_camelPair) (simp_all add: entryOk_def)
  moreover have "borderFree k" using ok e by (simp add: entryOk_def)
  ultimately show "case e of (k, r) \<Rightarrow> camelPair k r \<and> borderFree k" using e by simp
qed

lemma attributeMap_camelPairs: "list_all (\<lambda>(k, r). camelPair k r) attributeMap"
  using attributeMap_shape by (auto simp: list_all_iff)

lemma lower_not_ws: "isLower c \<Longrightarrow> \<not> isWhiteSpace c"
  by (auto simp: isLower_def isWhiteSpace_def word_le_nat_alt)

lemma hyphen_not_ws: "\<not> isWhiteSpace 0x2D"
  by (simp add: isWhiteSpace_def)

lemma hyphenated_units:
  assumes "hyphenated p" "x \<in> set p"
  shows "isLower x \<or> x = 0x2D"
  using assms by (auto simp: hyphenated_def list_all_iff)

lemma hyphenated_has_hyphen: "hyphenated p \<Longrightarrow> 0x2D \<in> set p"
  by (auto simp: hyphenated_def)

lemma camelPair_plain:
  assumes "camelPair k r"
  shows "k \<noteq> []" "\<forall>c\<in>set k. \<not> isWhiteSpace c"
proof -
  have h: "hyphenated k" by (rule camelPair_hyphenated [OF assms])
  show "k \<noteq> []" using hyphenated_has_hyphen [OF h] by auto
  show "\<forall>c\<in>set k. \<not> isWhiteSpace c"
    using hyphenated_units [OF h] lower_not_ws hyphen_not_ws by auto
qed

lemma renameAttributes_ws:
  assumes "allWhiteSpace w1" "allWhiteSpace w2"
  shows "list_all (\<lambda>(k, r). camelPair k r) entries \<Longrightarrow>
    renameAttributes entries (w1 @ s @ w2) = w1 @ renameAttributes entries s @ w2"
proof (induction entries arbitrary: s)
  case Nil
  then show ?case by simp
next
  case (Cons e entries)
  obtain k r where e: "e = (k, r)" by (cases e)
  have cp: "camelPair k r" and rest: "list_all (\<lambda>(k, r). camelPair k r) entries"
    using Cons.prems e by simp_all
  have k: "k \<noteq> []" "\<forall>c\<in>set k. \<not> isWhiteSpace c"
    using camelPair_plain [OF cp] by simp_all
  have "replaceAll k r (w1 @ s @ w2) = w1 @ replaceAll k r s @ w2"
    using replaceAll_leading_ws [OF k assms(1)] replaceAll_trailing_ws [OF k assms(2)] by simp
  then show ?case using Cons.IH [OF rest] e by simp
qed

lemma trim_surrounding_ws:
  assumes "allWhiteSpace w1" "allWhiteSpace w2"
  shows "trim (w1 @ x @ w2) = trim x"
proof -
  have a: "dropWhile isWhiteSpace (w1 @ x @ w2) = dropWhile isWhiteSpace (x @ w2)"
    using assms(1) by (simp add: allWhiteSpace_def)
  show ?thesis
  proof (cases "\<forall>c\<in>set x. isWhiteSpace c")
    case True
    then have e1: "dropWhile isWhiteSpace (x @ w2) = []"
      using assms(2) by (auto simp: allWhiteSpace_def)
    have e2: "dropWhile isWhiteSpace x = []" using True by simp
    show ?thesis unfolding trim_def a e1 e2 by simp
  next
    case False
    then have "dropWhile isWhiteSpace (x @ w2) = dropWhile isWhiteSpace x @ w2"
      by (auto simp: dropWhile_append1)
    moreover have "dropWhile isWhiteSpace (rev w2 @ y) = dropWhile isWhiteSpace y" for y
      using assms(2) by (intro dropWhile_append2) (auto simp: allWhiteSpace_def)
    ultimately show ?thesis using a by (simp add: trim_def)
  qed
qed

lemma convertToReactProps_surrounding_ws:
  assumes "allWhiteSpace w1" "allWhiteSpace w2"
  shows "convertToReactProps (w1 @ s @ w2) = convertToReactProps s"
proof -
  have "removeXmlDecl (w1 @ s @ w2) = w1 @ removeXmlDecl s @ w2"
    using removeXmlDecl_leading_ws [OF assms(1)] removeXmlDecl_trailing_ws [OF assms(2)]
    by simp
  moreover have "replaceSvgTag (w1 @ y @ w2) = w1 @ replaceSvgTag y @ w2" for y
    using replaceSvgTag_leading_ws [OF assms(1)] replaceSvgTag_trailing_ws [OF assms(2)]
    by simp
  ultimately show ?thesis
    unfolding convertToReactProps_def
    by (simp add: renameAttributes_ws [OF assms attributeMap_camelPairs]
        trim_surrounding_ws [OF assms])
qed

section \<open>Trimming, the svg tag and the templates create no attribute name\<close>

lemma trim_tail:
  "dropWhile isWhiteSpace x
     = trim x @ rev (takeWhile isWhiteSpace (rev (dropWhile isWhiteSpace x)))"
proof -
  let ?y = "dropWhile isWhiteSpace x"
  have "trim x @ rev (takeWhile isWhiteSpace (rev ?y))
        = rev (takeWhile isWhiteSpace (rev ?y) @ dropWhile isWhiteSpace (rev ?y))"
    by (simp only: trim_def rev_append)
  also have "\<dots> = rev (rev ?y)" by (simp only: takeWhile_dropWhile_id)
  finally show ?thesis by simp
qed

lemma trim_decomp:
  "\<exists>l r. allWhiteSpace l \<and> allWhiteSpace r \<and> x = l @ trim x @ r"
proof -
  let ?y = "dropWhile isWhiteSpace x"
  let ?l = "takeWhile isWhiteSpace x"
  let ?r = "rev (takeWhile isWhiteSpace (rev ?y))"
  have "?y = trim x @ ?r" by (rule trim_tail)
  moreover have "x = ?l @ ?y" by simp
  ultimately have "x = ?l @ trim x @ ?r" by simp
  moreover have "allWhiteSpace ?l" by (auto simp: allWhiteSpace_def dest: set_takeWhileD)
  moreover have "allWhiteSpace ?r" by (auto simp: allWhiteSpace_def dest: set_takeWhileD)
  ultimately show ?thesis by blast
qed

lemma trim_ends:
  assumes "trim x \<noteq> []"
  shows "\<not> isWhiteSpace (hd (trim x)) \<and> \<not> isWhiteSpace (last (trim x))"
proof -
  let ?y = "dropWhile isWhiteSpace x"
  let ?z = "dropWhile isWhiteSpace (rev ?y)"
  have z: "?z \<noteq> []" using assms by (simp add: trim_def)
  have "last (trim x) = hd ?z" using z by (simp add: trim_def last_rev)
  moreover have "\<not> isWhiteSpace (hd ?z)" using z by (rule hd_dropWhile)
  ultimately have l: "\<not> isWhiteSpace (last (trim x))" by simp
  have y: "?y \<noteq> []"
  proof
    assume "?y = []"
    then have "?z = []" by (simp only: rev.simps dropWhile.simps)
    with z show False by simp
  qed
  have "?y = trim x @ rev (takeWhile isWhiteSpace (rev ?y))" by (rule trim_tail)
  then have "hd ?y = hd (trim x)" using assms by (metis hd_append2)
  moreover have "\<not> isWhiteSpace (hd ?y)" using y by (rule hd_dropWhile)
  ultimately show ?thesis using l by simp
qed

lemma convertToReactProps_trim: "convertToReactProps (trim s) = convertToReactProps s"
proof -
  obtain l r where "allWhiteSpace l" "allWhiteSpace r" "s = l @ trim s @ r"
    using trim_decomp by blast
  then show ?thesis using convertToReactProps_surrounding_ws [of l r "trim s"] by simp
qed

lemma sublist_split_unit:
  assumes "c \<notin> set p" "sublist p (x @ c # y)"
  shows "sublist p x \<or> sublist p y"
proof -
  from assms(2) consider "sublist p x" | "sublist p (c # y)"
    | p1 p2 where "p = p1 @ p2" "suffix p1 x" "prefix p2 (c # y)"
    unfolding sublist_append by blast
  then show ?thesis
  proof cases
    case 2
    then consider "prefix p (c # y)" | "sublist p y" by (auto simp: sublist_Cons_right)
    then show ?thesis
    proof cases
      case 1
      then have "p = []" using assms(1) by (cases p) auto
      then show ?thesis by simp
    qed simp
  next
    case 3
    have "p2 = []" using 3(1,3) assms(1) by (cases p2) auto
    then have "suffix p x" using 3 by simp
    then show ?thesis by (auto intro: suffix_imp_sublist)
  qed simp
qed

lemma no_hyphen_no_name:
  assumes "hyphenated p" "0x2D \<notin> set m"
  shows "\<not> sublist p m"
proof
  assume "sublist p m"
  then have "set p \<subseteq> set m" by (rule set_mono_sublist)
  with hyphenated_has_hyphen [OF assms(1)] assms(2) show False by auto
qed

lemma hyphenated_excludes:
  assumes "hyphenated p" "\<not> isLower c" "c \<noteq> 0x2D"
  shows "c \<notin> set p"
  using hyphenated_units [OF assms(1)] assms(2,3) by auto

lemma name_between:
  assumes "hyphenated p" "\<not> isLower c" "c \<noteq> 0x2D" "\<not> isLower d" "d \<noteq> 0x2D"
    and "0x2D \<notin> set pre" "0x2D \<notin> set post"
    and "sublist p (pre @ c # b @ d # post)"
  shows "sublist p b"
proof -
  have c: "c \<notin> set p" and d: "d \<notin> set p"
    using hyphenated_excludes [OF assms(1)] assms(2-5) by auto
  from sublist_split_unit [OF c assms(8)] no_hyphen_no_name [OF assms(1,6)]
  have "sublist p (b @ d # post)" by blast
  from sublist_split_unit [OF d this] no_hyphen_no_name [OF assms(1,7)]
  show ?thesis by blast
qed

lemma replaceSvgTag_cases:
  \<open>replaceSvgTag s = s \<or>
   (\<exists>u g v. s = u @ lit ''<svg'' @ g @ 0x3E # v
      \<and> replaceSvgTag s = u @ lit ''<svg'' @ svgTagAdditions @ g @ 0x3E # v)\<close>
proof (induction s)
  case Nil
  then show ?case by simp
next
  case (Cons c cs)
  show ?case
  proof (cases "matchSvgTag (c # cs)")
    case None
    from Cons show ?thesis
    proof
      assume "replaceSvgTag cs = cs"
      then show ?thesis using None by simp
    next
      assume \<open>\<exists>u g v. cs = u @ lit ''<svg'' @ g @ 0x3E # v
        \<and> replaceSvgTag cs = u @ lit ''<svg'' @ svgTagAdditions @ g @ 0x3E # v\<close>
      then obtain u g v where \<open>cs = u @ lit ''<svg'' @ g @ 0x3E # v\<close>
        \<open>replaceSvgTag cs = u @ lit ''<svg'' @ svgTagAdditions @ g @ 0x3E # v\<close> by blast
      then have \<open>c # cs = (c # u) @ lit ''<svg'' @ g @ 0x3E # v\<close>
        \<open>replaceSvgTag (c # cs) = (c # u) @ lit ''<svg'' @ svgTagAdditions @ g @ 0x3E # v\<close>
        using None by simp_all
      then show ?thesis by blast
    qed
  next
    case (Some a)
    obtain g rest where a: "a = (g, rest)" by (cases a)
    have \<open>c # cs = [] @ lit ''<svg'' @ g @ 0x3E # rest\<close>
      using matchSvgTag_Some Some a by simp
    moreover have \<open>replaceSvgTag (c # cs) = [] @ lit ''<svg'' @ svgTagAdditions @ g @ 0x3E # rest\<close>
      using Some a by simp
    ultimately show ?thesis by blast
  qed
qed

lemma replaceSvgTag_creates_no_name:
  assumes "hyphenated p" "sublist p (replaceSvgTag s)"
  shows "sublist p s"
proof -
  from replaceSvgTag_cases [of s] show ?thesis
  proof
    assume "replaceSvgTag s = s"
    with assms(2) show ?thesis by simp
  next
    assume \<open>\<exists>u g v. s = u @ lit ''<svg'' @ g @ 0x3E # v
      \<and> replaceSvgTag s = u @ lit ''<svg'' @ svgTagAdditions @ g @ 0x3E # v\<close>
    then obtain u g v where s: \<open>s = u @ lit ''<svg'' @ g @ 0x3E # v\<close>
      and r: \<open>replaceSvgTag s = u @ lit ''<svg'' @ svgTagAdditions @ g @ 0x3E # v\<close> by blast
    let ?x = \<open>u @ lit ''<svg''\<close> and ?y = "g @ 0x3E # v"
    let ?mid = \<open>lit ''{...props} fill="currentColor" role="img''\<close>
    have sp: "0x20 \<notin> set p" and qu: "0x22 \<notin> set p"
      using hyphenated_excludes [OF assms(1)] by (simp_all add: isLower_def)
    have mid: "\<not> sublist p ?mid"
      by (rule no_hyphen_no_name [OF assms(1)]) (simp add: lit_def)
    have "replaceSvgTag s = ?x @ 0x20 # (?mid @ 0x22 # ?y)"
      using r by (simp add: svgTagAdditions_def lit_def)
    then have "sublist p (?x @ 0x20 # (?mid @ 0x22 # ?y))" using assms(2) by simp
    from sublist_split_unit [OF sp this] have "sublist p ?x \<or> sublist p (?mid @ 0x22 # ?y)" .
    then have "sublist p ?x \<or> sublist p ?y"
      using sublist_split_unit [OF qu] mid by blast
    moreover have "s = ?x @ ?y" using s by simp
    ultimately show ?thesis by (metis sublist_appendI sublist_append)
  qed
qed

lemma trim_creates_no_name: "sublist p (trim x) \<Longrightarrow> sublist p x"
proof -
  assume a: "sublist p (trim x)"
  obtain l r where "x = l @ trim x @ r" using trim_decomp by blast
  then have "sublist (trim x) x" by (metis sublist_appendI)
  with a show ?thesis by (rule sublist_order.order_trans)
qed

lemma convertToReactProps_no_key:
  assumes "(k, r) \<in> set attributeMap"
  shows "\<not> sublist k (convertToReactProps s)"
proof
  assume "sublist k (convertToReactProps s)"
  then have "sublist k (replaceSvgTag (renameAttributes attributeMap (removeXmlDecl s)))"
    unfolding convertToReactProps_def by (rule trim_creates_no_name)
  moreover have "camelPair k r"
    using attributeMap_camelPairs assms by (auto simp: list_all_iff)
  then have "hyphenated k" by (rule camelPair_hyphenated)
  ultimately have "sublist k (renameAttributes attributeMap (removeXmlDecl s))"
    using replaceSvgTag_creates_no_name by blast
  then show False
    using renameAttributes_removes_keys [OF attributeMap_shape assms] by blast
qed

lemma jsxTemplate_parts:
  \<open>jsxTemplate b =
     (lit ''const Icon = (props) => ('' @ nl # lit '' '') @ 0x20 # b
       @ nl # (lit '');'' @ nl # nl # lit ''export default Icon;'')\<close>
  by (simp add: jsxTemplate_def lit_def)

lemma tsxTemplate_parts:
  \<open>tsxTemplate b =
     (lit ''import { SVGProps } from 'react';'' @ nl # nl
        # lit ''const Icon = (props: SVGProps<SVGSVGElement>) => ('' @ nl # lit '' '') @ 0x20 # b
       @ nl # (lit '');'' @ nl # nl # lit ''export default Icon;'')\<close>
  by (simp add: tsxTemplate_def lit_def)

lemma templates_create_no_name:
  assumes "hyphenated p"
  shows "sublist p (jsxTemplate b) \<Longrightarrow> sublist p b"
    and "sublist p (tsxTemplate b) \<Longrightarrow> sublist p b"
proof -
  have sp: "\<not> isLower 0x20" "(0x20 :: 16 word) \<noteq> 0x2D" and n: "\<not> isLower nl" "nl \<noteq> 0x2D"
    by (simp_all add: isLower_def nl_def)
  show "sublist p b" if "sublist p (jsxTemplate b)"
  proof (rule name_between [OF assms sp n])
    show \<open>sublist p ((lit ''const Icon = (props) => ('' @ nl # lit '' '') @ 0x20 # b
       @ nl # (lit '');'' @ nl # nl # lit ''export default Icon;''))\<close>
      using that unfolding jsxTemplate_parts .
  qed (simp_all add: lit_def nl_def)
  show "sublist p b" if "sublist p (tsxTemplate b)"
  proof (rule name_between [OF assms sp n])
    show \<open>sublist p ((lit ''import { SVGProps } from 'react';'' @ nl # nl
        # lit ''const Icon = (props: SVGProps<SVGSVGElement>) => ('' @ nl # lit '' '') @ 0x20 # b
       @ nl # (lit '');'' @ nl # nl # lit ''export default Icon;''))\<close>
      using that unfolding tsxTemplate_parts .
  qed (simp_all add: lit_def nl_def)
qed

section \<open>Encoding and decoding\<close>

lemma hexDigit_cases:
  assumes "(n::nat) < 16"
  obtains "n = 0" | "n = 1" | "n = 2" | "n = 3" | "n = 4" | "n = 5" | "n = 6" | "n = 7"
    | "n = 8" | "n = 9" | "n = 10" | "n = 11" | "n = 12" | "n = 13" | "n = 14" | "n = 15"
proof -
  have "n \<in> set [0..<16]" using assms by simp
  also have "[0..<16] = [0, 1, 2, 3, 4, 5, 6, 7, 8, 9, 10, 11, 12, 13, 14, 15::nat]"
    by code_simp
  finally show ?thesis using that by auto
qed

lemma hexValue_hexDigit: "n < 16 \<Longrightarrow> hexValue (hexDigit n) = Some n"
  by (erule hexDigit_cases) (simp_all add: hexDigit_def hexValue_def lit_def)

lemma hexDigit_plain: "n < 16 \<Longrightarrow> hexDigit n \<noteq> 0x22 \<and> hexDigit n \<noteq> 0x27"
  by (erule hexDigit_cases) (simp_all add: hexDigit_def lit_def)

lemma percentDecode_percentOctet:
  assumes "b < 256"
  shows "percentDecode (percentOctet b @ rest) = map_option ((#) b) (percentDecode rest)"
proof -
  have "b div 16 < 16" "b mod 16 < 16" using assms by simp_all
  then have "hexValue (hexDigit (b div 16)) = Some (b div 16)"
    "hexValue (hexDigit (b mod 16)) = Some (b mod 16)"
    by (simp_all add: hexValue_hexDigit)
  moreover have "16 * (b div 16) + b mod 16 = b" by simp
  ultimately show ?thesis by (simp add: percentOctet_def)
qed

lemma percentDecode_percentOctets:
  "\<forall>b\<in>set bs. b < 256 \<Longrightarrow>
   percentDecode (percentOctets bs @ rest) = map_option ((@) bs) (percentDecode rest)"
proof (induction bs)
  case Nil
  show ?case by (simp add: percentOctets_def option.map_ident)
next
  case (Cons b bs)
  then have "percentDecode (percentOctets bs @ rest) = map_option ((@) bs) (percentDecode rest)"
    by simp
  moreover have "percentOctets (b # bs) @ rest = percentOctet b @ (percentOctets bs @ rest)"
    by (simp add: percentOctets_def)
  ultimately show ?case
    using percentDecode_percentOctet [of b "percentOctets bs @ rest"] Cons.prems
    by (simp add: option.map_comp comp_def)
qed

lemma percentOctets_plain:
  "\<forall>b\<in>set bs. b < 256 \<Longrightarrow> 0x22 \<notin> set (percentOctets bs) \<and> 0x27 \<notin> set (percentOctets bs)"
proof (induction bs)
  case Nil
  show ?case by (simp add: percentOctets_def)
next
  case (Cons b bs)
  have "b < 256" using Cons.prems by simp
  then have "b div 16 < 16" "b mod 16 < 16" by simp_all
  then have "hexDigit (b div 16) \<noteq> 0x22 \<and> hexDigit (b div 16) \<noteq> 0x27"
    "hexDigit (b mod 16) \<noteq> 0x22 \<and> hexDigit (b mod 16) \<noteq> 0x27"
    by (simp_all add: hexDigit_plain)
  then show ?case using Cons by (simp add: percentOctets_def percentOctet_def)
qed

lemma utf8Encode_octets: "cp < 0x110000 \<Longrightarrow> \<forall>b\<in>set (utf8Encode cp). b < 256"
  by (auto simp: utf8Encode_def)

lemma split_sextets:
  fixes x :: nat
  shows "(x div 0x1000) * 0x1000 + (x div 0x40 mod 0x40) * 0x40 + x mod 0x40 = x"
    and "(x div 0x40000) * 0x40000 + (x div 0x1000 mod 0x40) * 0x1000
          + (x div 0x40 mod 0x40) * 0x40 + x mod 0x40 = x"
proof -
  define q where "q = x div 0x40"
  define p where "p = q div 0x40"
  have x: "q * 0x40 + x mod 0x40 = x" by (simp add: q_def)
  have q: "p * 0x40 + q mod 0x40 = q" by (simp add: p_def)
  have p: "p div 0x40 * 0x40 + p mod 0x40 = p" by simp
  have d1: "x div 0x1000 = p" by (simp add: p_def q_def div_mult2_eq)
  have d2: "x div 0x40000 = p div 0x40" by (simp add: p_def q_def div_mult2_eq)
  have e: "(A * 0x40 + B) * 0x1000 = A * 0x40000 + B * 0x1000"
    "(A * 0x40 + B) * 0x40 = A * 0x1000 + B * 0x40" for A B :: nat
    by simp_all
  have "p * 0x1000 + (q mod 0x40) * 0x40 + x mod 0x40
        = (p * 0x40 + q mod 0x40) * 0x40 + x mod 0x40" by (simp only: e)
  also have "\<dots> = x" by (simp only: q x)
  finally have one: "p * 0x1000 + (q mod 0x40) * 0x40 + x mod 0x40 = x" .
  then show "(x div 0x1000) * 0x1000 + (x div 0x40 mod 0x40) * 0x40 + x mod 0x40 = x"
    by (simp only: d1 q_def [symmetric])
  have "(p div 0x40) * 0x40000 + (p mod 0x40) * 0x1000 + (q mod 0x40) * 0x40 + x mod 0x40
        = (p div 0x40 * 0x40 + p mod 0x40) * 0x1000 + (q mod 0x40) * 0x40 + x mod 0x40"
    by (simp only: e)
  also have "\<dots> = x" by (simp only: p one)
  finally show "(x div 0x40000) * 0x40000 + (x div 0x1000 mod 0x40) * 0x1000
          + (x div 0x40 mod 0x40) * 0x40 + x mod 0x40 = x"
    by (simp only: d1 d2 q_def [symmetric])
qed

lemma utf8Decode_utf8Encode:
  assumes "cp < 0x110000" "\<not> (0xD800 \<le> cp \<and> cp \<le> 0xDFFF)"
  shows "utf8Decode (utf8Encode cp @ rest) = map_option ((#) cp) (utf8Decode rest)"
proof -
  consider "cp < 0x80" | "0x80 \<le> cp" "cp < 0x800" | "0x800 \<le> cp" "cp < 0x10000"
    | "0x10000 \<le> cp" by linarith
  then show ?thesis
  proof cases
    case 1
    then show ?thesis by (simp add: utf8Encode_def)
  next
    case 2
    have "(cp div 0x40) * 0x40 + cp mod 0x40 = cp" by simp
    moreover have "cp div 0x40 < 0x20" using 2 by simp
    ultimately show ?thesis using 2 by (simp add: utf8Encode_def isContinuation_def)
  next
    case 3
    have "(cp div 0x1000) * 0x1000 + (cp div 0x40 mod 0x40) * 0x40 + cp mod 0x40 = cp"
      by (rule split_sextets(1))
    moreover have "cp div 0x1000 < 0x10" using 3 by simp
    ultimately show ?thesis using 3 assms(2) by (simp add: utf8Encode_def isContinuation_def)
  next
    case 4
    have "(cp div 0x40000) * 0x40000 + (cp div 0x1000 mod 0x40) * 0x1000
          + (cp div 0x40 mod 0x40) * 0x40 + cp mod 0x40 = cp"
      by (rule split_sextets(2))
    moreover have "cp div 0x40000 < 8" using assms(1) by simp
    ultimately show ?thesis using 4 assms(1) by (simp add: utf8Encode_def isContinuation_def)
  qed
qed

lemma utf16Encode_unit: "utf16Encode (unat c) = [c]" for c :: "16 word"
proof -
  have "unat c < 0x10000" using unsigned_less [of c, where 'a = nat] by simp
  then show ?thesis by (simp add: utf16Encode_def)
qed

lemma pairCodePoint_range:
  assumes "isLeadingSurrogate c" "isTrailingSurrogate d"
  shows "0x10000 \<le> pairCodePoint c d" "pairCodePoint c d < 0x110000"
  using assms
  by (auto simp: pairCodePoint_def isLeadingSurrogate_def isTrailingSurrogate_def word_le_nat_alt)

lemma utf16Encode_pair:
  assumes "isLeadingSurrogate c" "isTrailingSurrogate d"
  shows "utf16Encode (pairCodePoint c d) = [c, d]"
proof -
  let ?h = "unat c - 0xD800" and ?l = "unat d - 0xDC00"
  have c: "0xD800 \<le> unat c" and d: "0xDC00 \<le> unat d" "?l < 0x400"
    using assms by (auto simp: isLeadingSurrogate_def isTrailingSurrogate_def word_le_nat_alt)
  have p: "pairCodePoint c d - 0x10000 = ?h * 0x400 + ?l" by (simp add: pairCodePoint_def)
  have "(?h * 0x400 + ?l) div 0x400 = ?h" "(?h * 0x400 + ?l) mod 0x400 = ?l"
    using d(2) by simp_all
  then have "0xD800 + (pairCodePoint c d - 0x10000) div 0x400 = unat c"
    "0xDC00 + (pairCodePoint c d - 0x10000) mod 0x400 = unat d"
    using p c d by simp_all
  then show ?thesis
    using pairCodePoint_range(1) [OF assms] by (simp add: utf16Encode_def)
qed

lemma uriUnescaped_ascii:
  assumes "uriUnescaped c"
  shows "c < 0x80" "c \<noteq> 0x25" "c \<noteq> 0x22" "\<not> isLeadingSurrogate c" "\<not> isTrailingSurrogate c"
  using assms
  by (auto simp: uriUnescaped_def lit_def isLeadingSurrogate_def isTrailingSurrogate_def
      word_le_nat_alt word_less_nat_alt)

lemma surrogate_unat:
  "isLeadingSurrogate c \<longleftrightarrow> 0xD800 \<le> unat c \<and> unat c \<le> 0xDBFF"
  "isTrailingSurrogate c \<longleftrightarrow> 0xDC00 \<le> unat c \<and> unat c \<le> 0xDFFF"
  by (simp_all add: isLeadingSurrogate_def isTrailingSurrogate_def word_le_nat_alt)

lemma unit_scalar:
  assumes "\<not> isLeadingSurrogate c" "\<not> isTrailingSurrogate c"
  shows "unat c < 0x110000" "\<not> (0xD800 \<le> unat c \<and> unat c \<le> 0xDFFF)"
proof -
  have "unat c < 0x10000" using unsigned_less [of c, where 'a = nat] by simp
  then show "unat c < 0x110000" by simp
  show "\<not> (0xD800 \<le> unat c \<and> unat c \<le> 0xDFFF)"
    using assms unfolding surrogate_unat by linarith
qed

lemma pair_scalar:
  assumes "isLeadingSurrogate c" "isTrailingSurrogate d"
  shows "pairCodePoint c d < 0x110000"
    "\<not> (0xD800 \<le> pairCodePoint c d \<and> pairCodePoint c d \<le> 0xDFFF)"
  using pairCodePoint_range [OF assms] by simp_all

lemma replaceAll_unit_Cons:
  "replaceAll [a] r (c # cs) = (if c = a then r else [c]) @ replaceAll [a] r cs"
  by simp

lemma replaceAll_unit_append:
  "replaceAll [a] r (x @ y) = replaceAll [a] r x @ replaceAll [a] r y"
  by (induction x) auto

lemma replaceAll_unit_set:
  "set (replaceAll [a] r x) \<subseteq> set x \<union> set r"
  by (induction x) auto

lemma apostrophe_octet: \<open>lit ''%27'' = percentOctet 0x27\<close>
  by (simp add: lit_def percentOctet_def hexDigit_def)

text \<open>What the encoder writes for a well-formed string, and what percent-decoding reads
  back from it once the apostrophes are escaped.\<close>

lemma encodeURIComponent_wellFormed:
  "wellFormed s \<Longrightarrow>
     \<exists>enc. encodeURIComponent s = Inr enc \<and> 0x22 \<notin> set enc
       \<and> percentDecode (replaceAll [0x27] (lit ''%27'') enc)
           = Some (concat (map utf8Encode (codePoints s)))"
proof (induction s rule: wellFormed.induct)
  case 1
  show ?case by simp
next
  case (2 c cs)
  let ?esc = "replaceAll [0x27] (lit ''%27'')"
  show ?case
  proof (cases "isLeadingSurrogate c")
    case True
    with 2(3) obtain d ds where cs: "cs = d # ds" and d: "isTrailingSurrogate d"
      and wf: "wellFormed ds" by (cases cs) auto
    from 2(1) [OF True cs wf] obtain enc where
      enc: "encodeURIComponent ds = Inr enc" "0x22 \<notin> set enc"
        "percentDecode (?esc enc) = Some (concat (map utf8Encode (codePoints ds)))" by blast
    let ?bs = "utf8Encode (pairCodePoint c d)"
    have nu: "\<not> uriUnescaped c" using True uriUnescaped_ascii(4) by blast
    have oct: "\<forall>b\<in>set ?bs. b < 256"
      by (rule utf8Encode_octets [OF pair_scalar(1) [OF True d]])
    have e: "encodeURIComponent (c # cs) = Inr (percentOctets ?bs @ enc)"
      using nu True cs d enc(1) by simp
    have "?esc (percentOctets ?bs @ enc) = percentOctets ?bs @ ?esc enc"
      using percentOctets_plain [OF oct]
      by (simp add: replaceAll_unit_append replaceAll_absent)
    then have "percentDecode (?esc (percentOctets ?bs @ enc))
        = Some (?bs @ concat (map utf8Encode (codePoints ds)))"
      using percentDecode_percentOctets [OF oct] enc(3) by simp
    moreover have "codePoints (c # cs) = pairCodePoint c d # codePoints ds"
      using True cs d by simp
    moreover have "0x22 \<notin> set (percentOctets ?bs @ enc)"
      using percentOctets_plain [OF oct] enc(2) by simp
    ultimately show ?thesis using e by simp
  next
    case False
    with 2(3) have nt: "\<not> isTrailingSurrogate c" and wf: "wellFormed cs" by simp_all
    from 2(2) [OF False wf] obtain enc where
      enc: "encodeURIComponent cs = Inr enc" "0x22 \<notin> set enc"
        "percentDecode (?esc enc) = Some (concat (map utf8Encode (codePoints cs)))" by blast
    have cp: "codePoints (c # cs) = unat c # codePoints cs" using False by simp
    show ?thesis
    proof (cases "uriUnescaped c")
      case True
      note a = uriUnescaped_ascii [OF True]
      have e: "encodeURIComponent (c # cs) = Inr (c # enc)" using True enc(1) by simp
      have u: "utf8Encode (unat c) = [unat c]"
        using a(1) by (simp add: utf8Encode_def word_less_nat_alt)
      have "percentDecode (?esc (c # enc)) = Some (unat c # concat (map utf8Encode (codePoints cs)))"
      proof (cases "c = 0x27")
        case True
        have "?esc (c # enc) = percentOctet 0x27 @ ?esc enc"
          using True by (simp add: apostrophe_octet)
        then show ?thesis
          using percentDecode_percentOctet [of "0x27" "?esc enc"] enc(3) True by simp
      next
        case False
        then have "?esc (c # enc) = c # ?esc enc" by simp
        then show ?thesis using a(1,2) enc(3) by simp
      qed
      then show ?thesis using e cp u enc(2) a(3) by simp
    next
      case nu: False
      let ?bs = "utf8Encode (unat c)"
      have oct: "\<forall>b\<in>set ?bs. b < 256"
        by (rule utf8Encode_octets [OF unit_scalar(1) [OF False nt]])
      have e: "encodeURIComponent (c # cs) = Inr (percentOctets ?bs @ enc)"
        using nu False nt enc(1) by simp
      have "?esc (percentOctets ?bs @ enc) = percentOctets ?bs @ ?esc enc"
        using percentOctets_plain [OF oct]
        by (simp add: replaceAll_unit_append replaceAll_absent)
      then have "percentDecode (?esc (percentOctets ?bs @ enc))
          = Some (?bs @ concat (map utf8Encode (codePoints cs)))"
        using percentDecode_percentOctets [OF oct] enc(3) by simp
      moreover have "0x22 \<notin> set (percentOctets ?bs @ enc)"
        using percentOctets_plain [OF oct] enc(2) by simp
      ultimately show ?thesis using e cp by simp
    qed
  qed
qed

lemma codePoints_scalar:
  "wellFormed s \<Longrightarrow>
     \<forall>cp\<in>set (codePoints s). cp < 0x110000 \<and> \<not> (0xD800 \<le> cp \<and> cp \<le> 0xDFFF)"
proof (induction s rule: wellFormed.induct)
  case 1
  show ?case by simp
next
  case (2 c cs)
  show ?case
  proof (cases "isLeadingSurrogate c")
    case True
    with 2(3) obtain d ds where cs: "cs = d # ds" and d: "isTrailingSurrogate d"
      and wf: "wellFormed ds" by (cases cs) auto
    show ?thesis
      using 2(1) [OF True cs wf] pair_scalar [OF True d] True cs d by simp
  next
    case False
    with 2(3) have nt: "\<not> isTrailingSurrogate c" and wf: "wellFormed cs" by simp_all
    show ?thesis
      using 2(2) [OF False wf] unit_scalar [OF False nt] False by simp
  qed
qed

lemma utf8Decode_concat:
  "\<forall>cp\<in>set cps. cp < 0x110000 \<and> \<not> (0xD800 \<le> cp \<and> cp \<le> 0xDFFF) \<Longrightarrow>
     utf8Decode (concat (map utf8Encode cps)) = Some cps"
proof (induction cps)
  case Nil
  show ?case by simp
next
  case (Cons cp cps)
  then have "utf8Decode (concat (map utf8Encode cps)) = Some cps" by simp
  moreover have "cp < 0x110000" "\<not> (0xD800 \<le> cp \<and> cp \<le> 0xDFFF)"
    using Cons.prems by simp_all
  ultimately show ?case
    using utf8Decode_utf8Encode [of cp "concat (map utf8Encode cps)"] by simp
qed

lemma utf16Encode_codePoints:
  "wellFormed s \<Longrightarrow> concat (map utf16Encode (codePoints s)) = s"
proof (induction s rule: wellFormed.induct)
  case 1
  show ?case by simp
next
  case (2 c cs)
  show ?case
  proof (cases "isLeadingSurrogate c")
    case True
    with 2(3) obtain d ds where cs: "cs = d # ds" and d: "isTrailingSurrogate d"
      and wf: "wellFormed ds" by (cases cs) auto
    show ?thesis
      using 2(1) [OF True cs wf] utf16Encode_pair [OF True d] True cs d by simp
  next
    case False
    with 2(3) have wf: "wellFormed cs" by simp
    show ?thesis
      using 2(2) [OF False wf] utf16Encode_unit [of c] False by simp
  qed
qed

lemma cssTemplate_parts:
  \<open>cssTemplate encoded = cssHead @ encoded @ 0x22 # (lit '');'' @ nl # joinLines
     [lit ''  background-size: contain;'',
      lit ''  background-repeat: no-repeat;'',
      lit ''  background-position: center;'',
      lit ''  width: 24px;'',
      lit ''  height: 24px;'',
      lit ''}''])\<close>
  by (simp add: cssTemplate_def cssHead_def lit_def)

lemma dataUriPayload_cssTemplate:
  assumes "0x22 \<notin> set encoded"
  shows "dataUriPayload (cssTemplate encoded) = Some encoded"
proof -
  have a: "\<forall>x\<in>set encoded. x \<noteq> 0x22" using assms by auto
  show ?thesis
    unfolding cssTemplate_parts dataUriPayload_def using a by simp
qed

section \<open>Inputs that the first two steps leave alone\<close>

lemma removeXmlDecl_no_decl:
  \<open>\<not> sublist (lit ''<?xml'') s \<Longrightarrow> removeXmlDecl s = s\<close>
proof (induction s)
  case Nil
  show ?case by simp
next
  case (Cons c cs)
  have \<open>\<not> prefix (lit ''<?xml'') (c # cs)\<close>
    using Cons.prems prefix_imp_sublist by blast
  then have "matchXmlDecl (c # cs) = None" by (simp add: matchXmlDecl_def)
  moreover have \<open>\<not> sublist (lit ''<?xml'') cs\<close>
    using Cons.prems by (auto simp: sublist_Cons_right)
  ultimately show ?case using Cons.IH by simp
qed

lemma replaceAll_no_match:
  assumes "k \<noteq> []"
  shows "\<not> sublist k s \<Longrightarrow> replaceAll k r s = s"
proof (induction s)
  case Nil
  show ?case using assms by (simp add: replaceAll_Nil)
next
  case (Cons c cs)
  have "\<not> prefix k (c # cs)" using Cons.prems prefix_imp_sublist by blast
  moreover have "\<not> sublist k cs" using Cons.prems by (auto simp: sublist_Cons_right)
  ultimately show ?case using Cons.IH assms by (simp add: replaceAll_Cons_nomatch)
qed

lemma renameAttributes_no_key:
  "\<forall>(k, r)\<in>set entries. k \<noteq> [] \<and> \<not> sublist k s \<Longrightarrow> renameAttributes entries s = s"
proof (induction entries)
  case Nil
  show ?case by simp
next
  case (Cons e entries)
  obtain k r where e: "e = (k, r)" by (cases e)
  have "replaceAll k r s = s" using Cons.prems e by (intro replaceAll_no_match) auto
  then show ?case using Cons e by simp
qed

lemma attributeMap_no_key:
  assumes "\<forall>(k, r)\<in>set attributeMap. \<not> sublist k s"
  shows "renameAttributes attributeMap s = s"
proof (rule renameAttributes_no_key, clarify)
  fix k r assume m: "(k, r) \<in> set attributeMap"
  then have "camelPair k r" using attributeMap_camelPairs by (auto simp: list_all_iff)
  then have "k \<noteq> []" by (rule camelPair_plain(1))
  moreover have "\<not> sublist k s" using assms m by auto
  ultimately show "k \<noteq> [] \<and> \<not> sublist k s" by simp
qed

lemma svg_with_additions:
  \<open>lit ''<svg'' @ svgTagAdditions = lit ''<svg {...props} fill="currentColor" role="img"''\<close>
  by (simp add: svgTagAdditions_def lit_def)

section \<open>Empty content\<close>

text \<open>
  Claim C2. With no SVG loaded (the content is the empty string) the converter returns
  the empty string, and throws nothing, for each of the six formats.
\<close>

theorem empty_content_yields_empty: "getTransformedCode [] format = Inr []"
  by (simp add: getTransformedCode_def)

text \<open>
  Claim C3. The raw format is the identity: converting any string with it returns the
  string unchanged.
\<close>

theorem raw_is_identity: "getTransformedCode s Raw = Inr s"
  by (simp add: getTransformedCode_def)

text \<open>
  Claim C1 says that for empty content the html and css formats still render their
  wrapper around an empty payload. The guard on the empty content returns first:
  at the empty string neither output is the wrapper.
\<close>

theorem empty_html_css_counterexample:
  "getTransformedCode [] Html = Inr [] \<and> getTransformedCode [] Html \<noteq> Inr (htmlTemplate [])
   \<and> getTransformedCode [] Css = Inr [] \<and> getTransformedCode [] Css \<noteq> Inr (cssTemplate [])"
  using htmlTemplate_nonempty [of "[]"] cssTemplate_nonempty [of "[]"]
  by (simp add: getTransformedCode_def)

text \<open>
  Claim C1, amended. For empty content every format, html and css included, yields the
  empty string; the html and css wrappers are rendered exactly when the content is
  not empty (for css, when the content can be encoded).
\<close>

theorem wrapper_only_for_nonempty_content:
  "getTransformedCode [] format = Inr []
   \<and> (getTransformedCode s Html = Inr (htmlTemplate s) \<longleftrightarrow> s \<noteq> [])
   \<and> (encodedSvg s = Inr encoded \<longrightarrow>
        (getTransformedCode s Css = Inr (cssTemplate encoded) \<longleftrightarrow> s \<noteq> []))"
  using htmlTemplate_nonempty [of s] cssTemplate_nonempty [of encoded]
  by (auto simp: getTransformedCode_def)

theorem wrapper_only_for_nonempty_content_witness:
  \<open>getTransformedCode [] Html = Inr []
   \<and> getTransformedCode (lit ''a'') Html = Inr (htmlTemplate (lit ''a''))
   \<and> encodedSvg (lit ''a'') = Inr (lit ''a'')
   \<and> getTransformedCode (lit ''a'') Css = Inr (cssTemplate (lit ''a''))\<close>
proof -
  have e: \<open>encodedSvg (lit ''a'') = Inr (lit ''a'')\<close>
    by (simp add: encodedSvg_def lit_def uriUnescaped_def)
  have n: \<open>lit ''a'' \<noteq> []\<close> by (simp add: lit_def)
  show ?thesis
    using wrapper_only_for_nonempty_content [of Html \<open>lit ''a''\<close> \<open>lit ''a''\<close>] e n by simp
qed

section \<open>The jsx template\<close>

text \<open>
  Claim C6 says that the jsx output ends with \<open>export default Icon;\<close> for every input.
  For the empty input the output is the empty string.
\<close>

theorem jsx_empty_counterexample:
  \<open>getTransformedCode [] Jsx = Inr [] \<and> \<not> suffix (lit ''export default Icon;'') []\<close>
  by (simp add: getTransformedCode_def lit_def)

text \<open>
  Claim C6, amended. For every input other than the empty string the jsx format returns
  a text that ends with \<open>export default Icon;\<close>.
\<close>

theorem jsx_ends_with_export:
  assumes "s \<noteq> []"
  shows \<open>\<exists>out. getTransformedCode s Jsx = Inr out \<and> suffix (lit ''export default Icon;'') out\<close>
proof -
  have "getTransformedCode s Jsx = Inr (jsxTemplate (convertToReactProps s))"
    using assms by (simp add: getTransformedCode_def)
  moreover have \<open>suffix (lit ''export default Icon;'') (jsxTemplate (convertToReactProps s))\<close>
    unfolding jsxTemplate_def by (rule suffix_order.trans [OF _ joinLines_last]) simp_all
  ultimately show ?thesis by blast
qed

theorem jsx_ends_with_export_witness:
  \<open>lit ''<svg/>'' \<noteq> [] \<and>
   (\<exists>out. getTransformedCode (lit ''<svg/>'') Jsx = Inr out \<and> suffix (lit ''export default Icon;'') out)\<close>
proof -
  have n: \<open>lit ''<svg/>'' \<noteq> []\<close> by (simp add: lit_def)
  show ?thesis using n jsx_ends_with_export [OF n] by simp
qed

text \<open>
  Claim C4. For the input \<open><svg stroke-width="2"><path d="M0 0"/></svg>\<close> the jsx output
  is the component template around the converted markup, whose opening tag is exactly
  \<open><svg {...props} fill="currentColor" role="img" strokeWidth="2">\<close>.
\<close>

theorem jsx_sample_opening_tag:
  \<open>getTransformedCode (lit ''<svg stroke-width="2"><path d="M0 0"/></svg>'') Jsx =
     Inr (joinLines
       [lit ''const Icon = (props) => ('',
        lit ''  '' @ lit ''<svg {...props} fill="currentColor" role="img" strokeWidth="2">''
                 @ lit ''<path d="M0 0"/></svg>'',
        lit '');'',
        [],
        lit ''export default Icon;''])\<close>
  by code_simp

section \<open>The conversion to React props: claims\<close>

text \<open>
  Claim C10 says that an input with no opening svg tag gets no splice. The input
  \<open><s<?xml?>vg>\<close> contains no \<open><svg\<close>; removing the XML declaration, which comes first,
  leaves \<open><svg>\<close>, and the jsx output carries the additions.
\<close>

theorem svg_tag_input_counterexample:
  \<open>\<not> sublist (lit ''<svg'') (lit ''<s<?xml?>vg>'')
   \<and> getTransformedCode (lit ''<s<?xml?>vg>'') Jsx
       = Inr (jsxTemplate (lit ''<svg {...props} fill="currentColor" role="img">''))\<close>
  by code_simp

text \<open>
  Claim C10, amended. In the jsx and tsx transforms of a non-empty input the splice is
  applied to the text that is left when the XML declarations have been removed and the
  attributes of the table renamed. Only the first opening svg tag of that text (the
  first \<open><svg\<close>, followed by attribute text without \<open>>\<close> and a \<open>>\<close>) receives
  \<open> {...props} fill="currentColor" role="img"\<close> behind \<open><svg\<close>; everything behind that
  tag, later svg tags included, is left as it is, and when that text has no such tag
  nothing is spliced in. The result is trimmed and embedded in the template. For an
  input with no \<open><?xml\<close> and no key of the table that text is the input itself.
\<close>

theorem svg_tag_spliced_once:
  assumes "s \<noteq> []"
  shows
   \<open>(renameAttributes attributeMap (removeXmlDecl s) = u @ lit ''<svg'' @ g @ 0x3E # v
        \<longrightarrow> \<not> sublist (lit ''<svg'') (u @ lit ''<sv'') \<longrightarrow> 0x3E \<notin> set g \<longrightarrow>
      getTransformedCode s Jsx
        = Inr (jsxTemplate (trim
            (u @ lit ''<svg {...props} fill="currentColor" role="img"'' @ g @ 0x3E # v)))
      \<and> getTransformedCode s Tsx
        = Inr (tsxTemplate (trim
            (u @ lit ''<svg {...props} fill="currentColor" role="img"'' @ g @ 0x3E # v))))
    \<and> ((\<nexists>u g v. renameAttributes attributeMap (removeXmlDecl s) = u @ lit ''<svg'' @ g @ 0x3E # v)
        \<longrightarrow>
      getTransformedCode s Jsx
        = Inr (jsxTemplate (trim (renameAttributes attributeMap (removeXmlDecl s))))
      \<and> getTransformedCode s Tsx
        = Inr (tsxTemplate (trim (renameAttributes attributeMap (removeXmlDecl s)))))
    \<and> (\<not> sublist (lit ''<?xml'') s \<longrightarrow> (\<forall>(k, r)\<in>set attributeMap. \<not> sublist k s) \<longrightarrow>
      renameAttributes attributeMap (removeXmlDecl s) = s)\<close>
proof -
  let ?y = "renameAttributes attributeMap (removeXmlDecl s)"
  have j: "getTransformedCode s Jsx = Inr (jsxTemplate (trim (replaceSvgTag ?y)))"
    and t: "getTransformedCode s Tsx = Inr (tsxTemplate (trim (replaceSvgTag ?y)))"
    using assms by (simp_all add: getTransformedCode_def convertToReactProps_def)
  have a: \<open>replaceSvgTag ?y
      = u @ lit ''<svg {...props} fill="currentColor" role="img"'' @ g @ 0x3E # v\<close>
    if \<open>?y = u @ lit ''<svg'' @ g @ 0x3E # v\<close> \<open>\<not> sublist (lit ''<svg'') (u @ lit ''<sv'')\<close>
      "0x3E \<notin> set g"
  proof -
    have \<open>replaceSvgTag ?y = u @ (lit ''<svg'' @ svgTagAdditions) @ g @ 0x3E # v\<close>
      using replaceSvgTag_first [OF that(2,3), of v] that(1) by simp
    then show ?thesis by (simp only: svg_with_additions)
  qed
  have b: "replaceSvgTag ?y = ?y"
    if \<open>\<nexists>u g v. ?y = u @ lit ''<svg'' @ g @ 0x3E # v\<close>
    using that by (rule replaceSvgTag_no_tag)
  have c: "?y = s"
    if \<open>\<not> sublist (lit ''<?xml'') s\<close> "\<forall>(k, r)\<in>set attributeMap. \<not> sublist k s"
    using removeXmlDecl_no_decl [OF that(1)] attributeMap_no_key [OF that(2)] by simp
  show ?thesis using j t a b c by auto
qed

theorem svg_tag_spliced_once_witness:
  \<open>lit ''<p><svg a><svg b>'' \<noteq> []
   \<and> \<not> sublist (lit ''<?xml'') (lit ''<p><svg a><svg b>'')
   \<and> \<not> sublist (lit ''<svg'') (lit ''<p>'' @ lit ''<sv'') \<and> 0x3E \<notin> set (lit '' a'')
   \<and> renameAttributes attributeMap (removeXmlDecl (lit ''<p><svg a><svg b>''))
       = lit ''<p>'' @ lit ''<svg'' @ lit '' a'' @ 0x3E # lit ''<svg b>''
   \<and> getTransformedCode (lit ''<p><svg a><svg b>'') Jsx
       = Inr (jsxTemplate (lit ''<p><svg {...props} fill="currentColor" role="img" a><svg b>''))
   \<and> getTransformedCode (lit ''<p><svg a><svg b>'') Tsx
       = Inr (tsxTemplate (lit ''<p><svg {...props} fill="currentColor" role="img" a><svg b>''))
   \<and> lit ''<svg'' \<noteq> [] \<and> \<not> sublist (lit ''<?xml'') (lit ''<svg'')
   \<and> (\<nexists>u g v. renameAttributes attributeMap (removeXmlDecl (lit ''<svg''))
          = u @ lit ''<svg'' @ g @ 0x3E # v)
   \<and> getTransformedCode (lit ''<svg'') Jsx = Inr (jsxTemplate (lit ''<svg''))
   \<and> getTransformedCode (lit ''<svg'') Tsx = Inr (tsxTemplate (lit ''<svg''))\<close>
proof -
  let ?s = \<open>lit ''<p><svg a><svg b>''\<close> and ?n = \<open>lit ''<svg''\<close>
  have keys: "\<forall>(k, r)\<in>set attributeMap. \<not> sublist k x" if "0x2D \<notin> set x" for x
  proof clarify
    fix k r assume "(k, r) \<in> set attributeMap" and s: "sublist k x"
    then have "camelPair k r" using attributeMap_camelPairs by (auto simp: list_all_iff)
    then have "hyphenated k" by (rule camelPair_hyphenated)
    from no_hyphen_no_name [OF this that] s show False by simp
  qed
  have s1: "?s \<noteq> []" and n1: "?n \<noteq> []" by (simp_all add: lit_def)
  have s2: \<open>\<not> sublist (lit ''<?xml'') ?s\<close> and n2: \<open>\<not> sublist (lit ''<?xml'') ?n\<close>
    by (simp_all add: lit_def sublist_Cons_right)
  have s3: "\<forall>(k, r)\<in>set attributeMap. \<not> sublist k ?s"
    and n3: "\<forall>(k, r)\<in>set attributeMap. \<not> sublist k ?n"
    by (rule keys, simp add: lit_def)+
  have s4: \<open>\<not> sublist (lit ''<svg'') (lit ''<p>'' @ lit ''<sv'')\<close>
    by (simp add: lit_def sublist_Cons_right)
  have s5: \<open>0x3E \<notin> set (lit '' a'')\<close> by (simp add: lit_def)
  note ts = svg_tag_spliced_once [OF s1, of \<open>lit ''<p>''\<close> \<open>lit '' a''\<close> \<open>lit ''<svg b>''\<close>]
  note tn = svg_tag_spliced_once [OF n1]
  have ys: "renameAttributes attributeMap (removeXmlDecl ?s) = ?s" using ts s2 s3 by blast
  have yn: "renameAttributes attributeMap (removeXmlDecl ?n) = ?n" using tn s2 n2 n3 by blast
  have s6: \<open>renameAttributes attributeMap (removeXmlDecl ?s)
      = lit ''<p>'' @ lit ''<svg'' @ lit '' a'' @ 0x3E # lit ''<svg b>''\<close>
    unfolding ys by (simp add: lit_def)
  have n4: \<open>\<nexists>u g v. renameAttributes attributeMap (removeXmlDecl ?n)
      = u @ lit ''<svg'' @ g @ 0x3E # v\<close>
  proof
    assume \<open>\<exists>u g v. renameAttributes attributeMap (removeXmlDecl ?n)
      = u @ lit ''<svg'' @ g @ 0x3E # v\<close>
    then obtain u g v where \<open>?n = u @ lit ''<svg'' @ g @ 0x3E # v\<close> unfolding yn by blast
    then have \<open>length ?n = length (u @ lit ''<svg'' @ g @ 0x3E # v)\<close> by simp
    then show False by (simp add: lit_def)
  qed
  have tr: \<open>trim (lit ''<p>'' @ lit ''<svg {...props} fill="currentColor" role="img"''
        @ lit '' a'' @ 0x3E # lit ''<svg b>'')
      = lit ''<p><svg {...props} fill="currentColor" role="img" a><svg b>''\<close>
    by (simp add: trim_def lit_def isWhiteSpace_def)
  have tn': "trim ?n = ?n" by (simp add: trim_def lit_def isWhiteSpace_def)
  have outs: \<open>getTransformedCode ?s Jsx
       = Inr (jsxTemplate (lit ''<p><svg {...props} fill="currentColor" role="img" a><svg b>''))
     \<and> getTransformedCode ?s Tsx
       = Inr (tsxTemplate (lit ''<p><svg {...props} fill="currentColor" role="img" a><svg b>''))\<close>
    using ts s6 s4 s5 unfolding tr [symmetric] by blast
  have outn: "getTransformedCode ?n Jsx = Inr (jsxTemplate ?n)
     \<and> getTransformedCode ?n Tsx = Inr (tsxTemplate ?n)"
    using tn n4 yn tn' by simp
  show ?thesis using s1 s2 s4 s5 s6 outs n1 n2 n4 outn by blast
qed

text \<open>
  Claim C9. For every non-empty input the text embedded in the jsx and tsx templates is
  the transformed input without its leading and trailing white space: the transformed
  input is that text between two runs of white space, and the text, when not empty,
  neither begins nor ends with white space. Two non-empty inputs that differ only in
  their surrounding white space (they trim to the same text) give the same jsx and the
  same tsx output, in particular an input and the input with white space added around
  it, while the raw format returns each input as it is.
\<close>

theorem jsx_tsx_strip_surrounding_white_space:
  assumes "s \<noteq> []" "s' \<noteq> []" "trim s' = trim s"
  shows "getTransformedCode s Jsx = Inr (jsxTemplate (convertToReactProps s))
    \<and> getTransformedCode s Tsx = Inr (tsxTemplate (convertToReactProps s))
    \<and> (\<exists>l r. allWhiteSpace l \<and> allWhiteSpace r
          \<and> replaceSvgTag (renameAttributes attributeMap (removeXmlDecl s))
              = l @ convertToReactProps s @ r)
    \<and> (convertToReactProps s \<noteq> [] \<longrightarrow>
          \<not> isWhiteSpace (hd (convertToReactProps s))
          \<and> \<not> isWhiteSpace (last (convertToReactProps s)))
    \<and> getTransformedCode s' Jsx = getTransformedCode s Jsx
    \<and> getTransformedCode s' Tsx = getTransformedCode s Tsx
    \<and> getTransformedCode s' Raw = Inr s'
    \<and> (allWhiteSpace w1 \<and> allWhiteSpace w2 \<longrightarrow>
          getTransformedCode (w1 @ s @ w2) Jsx = getTransformedCode s Jsx
          \<and> getTransformedCode (w1 @ s @ w2) Tsx = getTransformedCode s Tsx)"
proof -
  let ?x = "replaceSvgTag (renameAttributes attributeMap (removeXmlDecl s))"
  have c: "convertToReactProps s = trim ?x" by (simp add: convertToReactProps_def)
  have "\<exists>l r. allWhiteSpace l \<and> allWhiteSpace r \<and> ?x = l @ convertToReactProps s @ r"
    unfolding c by (rule trim_decomp)
  moreover have "convertToReactProps s \<noteq> [] \<longrightarrow>
      \<not> isWhiteSpace (hd (convertToReactProps s)) \<and> \<not> isWhiteSpace (last (convertToReactProps s))"
    unfolding c using trim_ends by blast
  moreover have "convertToReactProps s' = convertToReactProps s"
    using convertToReactProps_trim [of s] convertToReactProps_trim [of s'] assms(3) by simp
  moreover have "allWhiteSpace w1 \<and> allWhiteSpace w2 \<longrightarrow>
      convertToReactProps (w1 @ s @ w2) = convertToReactProps s"
    using convertToReactProps_surrounding_ws by blast
  ultimately show ?thesis using assms(1,2) by (simp add: getTransformedCode_def)
qed

theorem jsx_tsx_strip_surrounding_white_space_witness:
  \<open>lit ''<svg/>'' \<noteq> [] \<and> [0x20, 0x09] @ lit ''<svg/>'' @ [0x0A] \<noteq> []
   \<and> trim ([0x20, 0x09] @ lit ''<svg/>'' @ [0x0A]) = trim (lit ''<svg/>'')
   \<and> allWhiteSpace [0x20, 0x09] \<and> allWhiteSpace [0x0A]
   \<and> getTransformedCode ([0x20, 0x09] @ lit ''<svg/>'' @ [0x0A]) Jsx = getTransformedCode (lit ''<svg/>'') Jsx
   \<and> getTransformedCode ([0x20, 0x09] @ lit ''<svg/>'' @ [0x0A]) Tsx = getTransformedCode (lit ''<svg/>'') Tsx
   \<and> getTransformedCode ([0x20, 0x09] @ lit ''<svg/>'' @ [0x0A]) Raw = Inr ([0x20, 0x09] @ lit ''<svg/>'' @ [0x0A])\<close>
proof -
  have a: \<open>lit ''<svg/>'' \<noteq> []\<close> by (simp add: lit_def)
  have a': \<open>[0x20, 0x09] @ lit ''<svg/>'' @ [0x0A] \<noteq> []\<close> by simp
  have b: "allWhiteSpace [0x20, 0x09]" by (simp add: isWhiteSpace_def)
  have c: "allWhiteSpace [0x0A]" by (simp add: isWhiteSpace_def)
  have t: \<open>trim ([0x20, 0x09] @ lit ''<svg/>'' @ [0x0A]) = trim (lit ''<svg/>'')\<close>
    by (rule trim_surrounding_ws [OF b c])
  show ?thesis
    using a a' b c t jsx_tsx_strip_surrounding_white_space [OF a a' t] by simp
qed

text \<open>
  Claim C5. For every input, the jsx and tsx outputs contain no occurrence of any
  hyphenated attribute name on the left-hand side of the table.
\<close>

theorem jsx_tsx_no_hyphenated_attribute:
  assumes "format = Jsx \<or> format = Tsx" "(k, r) \<in> set attributeMap"
    and "getTransformedCode s format = Inr out"
  shows "\<not> sublist k out"
proof (cases "s = []")
  case True
  then have "out = []" using assms(3) by (simp add: getTransformedCode_def)
  moreover have "camelPair k r"
    using attributeMap_camelPairs assms(2) by (auto simp: list_all_iff)
  then have "k \<noteq> []" by (rule camelPair_plain(1))
  ultimately show ?thesis by simp
next
  case False
  have "camelPair k r"
    using attributeMap_camelPairs assms(2) by (auto simp: list_all_iff)
  then have h: "hyphenated k" by (rule camelPair_hyphenated)
  have "out = jsxTemplate (convertToReactProps s) \<or> out = tsxTemplate (convertToReactProps s)"
    using assms(1,3) False by (auto simp: getTransformedCode_def)
  then show ?thesis
    using templates_create_no_name [OF h] convertToReactProps_no_key [OF assms(2)] by blast
qed

theorem jsx_tsx_no_hyphenated_attribute_witness:
  \<open>(lit ''fill-rule'', lit ''fillRule'') \<in> set attributeMap
   \<and> getTransformedCode (lit ''fill-rule'') Jsx
       = Inr (jsxTemplate (lit ''fillRule''))
   \<and> \<not> sublist (lit ''fill-rule'') (jsxTemplate (lit ''fillRule''))\<close>
proof -
  have a: \<open>(lit ''fill-rule'', lit ''fillRule'') \<in> set attributeMap\<close>
    by (simp add: attributeMap_def)
  have b: \<open>getTransformedCode (lit ''fill-rule'') Jsx = Inr (jsxTemplate (lit ''fillRule''))\<close>
    by code_simp
  show ?thesis
    using a b jsx_tsx_no_hyphenated_attribute [OF _ a b] by simp
qed

section \<open>The css data URI\<close>

text \<open>
  Claim C7 says that for every input without unpaired surrogates the payload of the data
  URI in the css output decodes to the input. The empty string has no unpaired
  surrogate, and its css output is the empty string, which holds no data URI.
\<close>

theorem css_empty_input_counterexample:
  "wellFormed [] \<and> getTransformedCode [] Css = Inr [] \<and> dataUriPayload [] = None"
  by (simp add: getTransformedCode_def dataUriPayload_def cssHead_def)

text \<open>
  Claim C7, amended. For every non-empty input without unpaired surrogates the css format
  returns a rule whose data URI has a payload that percent-decodes to the octets of the
  UTF-8 encoding of the input, and so, read as UTF-8, gives back the input exactly.
\<close>

theorem css_data_uri_round_trip:
  assumes "s \<noteq> []" "wellFormed s"
  shows "\<exists>out payload. getTransformedCode s Css = Inr out
           \<and> dataUriPayload out = Some payload
           \<and> percentDecode payload = Some (concat (map utf8Encode (codePoints s)))
           \<and> decodePayload payload = Some s"
proof -
  from encodeURIComponent_wellFormed [OF assms(2)] obtain enc where
    enc: "encodeURIComponent s = Inr enc" "0x22 \<notin> set enc"
      "percentDecode (replaceAll [0x27] (lit ''%27'') enc)
         = Some (concat (map utf8Encode (codePoints s)))" by blast
  let ?p = "replaceAll [0x27] (lit ''%27'') enc"
  have q: "0x22 \<notin> set ?p"
    using replaceAll_unit_set [of "0x27" "lit ''%27''" enc] enc(2) by (auto simp: lit_def)
  have "replaceAll [0x22] (lit ''%22'') ?p = ?p"
    by (rule replaceAll_absent [OF _ _ q]) simp_all
  then have "encodedSvg s = Inr ?p" using enc(1) by (simp add: encodedSvg_def)
  then have out: "getTransformedCode s Css = Inr (cssTemplate ?p)"
    using assms(1) by (simp add: getTransformedCode_def)
  have pl: "dataUriPayload (cssTemplate ?p) = Some ?p"
    by (rule dataUriPayload_cssTemplate [OF q])
  have "utf8Decode (concat (map utf8Encode (codePoints s))) = Some (codePoints s)"
    by (rule utf8Decode_concat [OF codePoints_scalar [OF assms(2)]])
  then have "decodePayload ?p = Some s"
    using enc(3) utf16Encode_codePoints [OF assms(2)] by (simp add: decodePayload_def)
  with out pl enc(3) show ?thesis by blast
qed

theorem css_data_uri_round_trip_witness:
  "[0x3C, 0xE9, 0xD83D, 0xDE00, 0x27, 0x22, 0x20AC] \<noteq> ([] :: jsstring)
   \<and> wellFormed [0x3C, 0xE9, 0xD83D, 0xDE00, 0x27, 0x22, 0x20AC]
   \<and> (\<exists>out payload.
         getTransformedCode [0x3C, 0xE9, 0xD83D, 0xDE00, 0x27, 0x22, 0x20AC] Css = Inr out
         \<and> dataUriPayload out = Some payload
         \<and> decodePayload payload = Some [0x3C, 0xE9, 0xD83D, 0xDE00, 0x27, 0x22, 0x20AC])"
proof -
  have a: "[0x3C, 0xE9, 0xD83D, 0xDE00, 0x27, 0x22, 0x20AC] \<noteq> ([] :: jsstring)" by simp
  have b: "wellFormed [0x3C, 0xE9, 0xD83D, 0xDE00, 0x27, 0x22, 0x20AC]"
    by (simp add: isLeadingSurrogate_def isTrailingSurrogate_def)
  show ?thesis
    using a b css_data_uri_round_trip [OF a b] by blast
qed

section \<open>Rejected uploads\<close>

text \<open>
  Claim C8. When the declared MIME type of an uploaded file is not \<open>image/svg+xml\<close>,
  the upload handler leaves the (non-empty, hence displayed) message
  \<open>Invalid file type. Please upload an SVG file.\<close> in the state and changes neither
  the loaded SVG content nor the selected format.
\<close>

theorem invalid_file_type_keeps_state:
  assumes \<open>file_type file \<noteq> lit ''image/svg+xml''\<close>
  shows \<open>errorMessage (handleFileUpload st file) = lit ''Invalid file type. Please upload an SVG file.''
     \<and> errorMessage (handleFileUpload st file) \<noteq> []
     \<and> svgContent (handleFileUpload st file) = svgContent st
     \<and> selectedFormat (handleFileUpload st file) = selectedFormat st\<close>
  using assms by (simp add: handleFileUpload_def lit_def)

theorem invalid_file_type_keeps_state_witness:
  \<open>file_type \<lparr>file_type = lit ''image/png'', file_text = lit ''PNG''\<rparr> \<noteq> lit ''image/svg+xml''
   \<and> errorMessage (handleFileUpload
         \<lparr>svgContent = lit ''<svg/>'', selectedFormat = Css, errorMessage = [],
          copySuccess = False, isDragging = False\<rparr>
         \<lparr>file_type = lit ''image/png'', file_text = lit ''PNG''\<rparr>)
       = lit ''Invalid file type. Please upload an SVG file.''
   \<and> svgContent (handleFileUpload
         \<lparr>svgContent = lit ''<svg/>'', selectedFormat = Css, errorMessage = [],
          copySuccess = False, isDragging = False\<rparr>
         \<lparr>file_type = lit ''image/png'', file_text = lit ''PNG''\<rparr>) = lit ''<svg/>''
   \<and> selectedFormat (handleFileUpload
         \<lparr>svgContent = lit ''<svg/>'', selectedFormat = Css, errorMessage = [],
          copySuccess = False, isDragging = False\<rparr>
         \<lparr>file_type = lit ''image/png'', file_text = lit ''PNG''\<rparr>) = Css\<close>
proof -
  have h: \<open>file_type \<lparr>file_type = lit ''image/png'', file_text = lit ''PNG''\<rparr> \<noteq> lit ''image/svg+xml''\<close>
    by (simp add: lit_def)
  show ?thesis
    using h invalid_file_type_keeps_state [OF h, of
         \<open>\<lparr>svgContent = lit ''<svg/>'', selectedFormat = Css, errorMessage = [],
          copySuccess = False, isDragging = False\<rparr>\<close>]
    by simp
qed

end
